theory Spec2Isabelle
  imports Main "HOL-Library.AList"
begin

section \<open>Strings\<close>

text \<open>
  A JavaScript string is modelled as a \<open>string\<close>: one \<open>char\<close> stands for one UTF-16 code
  unit, so the model covers the strings whose code units are below 256.
\<close>

definition ccode :: "char \<Rightarrow> nat" where
  "ccode c = of_char c"

definition is_digit :: "char \<Rightarrow> bool" where
  "is_digit c = (48 \<le> ccode c \<and> ccode c \<le> 57)"

text \<open>\<open>String.prototype.split\<close> with a one-character separator.\<close>

fun split_on :: "char \<Rightarrow> string \<Rightarrow> string list" where
  "split_on sep [] = [[]]"
| "split_on sep (c # cs) =
     (if c = sep then [] # split_on sep cs
      else (case split_on sep cs of
              p # ps \<Rightarrow> (c # p) # ps
            | [] \<Rightarrow> [[c]]))"

section \<open>cmpSemver\<close>

text \<open>
  The value of a run of decimal digits, most significant digit first.
\<close>

definition digit_val :: "char \<Rightarrow> int" where
  "digit_val c = int (ccode c) - 48"

definition dec :: "string \<Rightarrow> int" where
  "dec s = foldl (\<lambda>n c. 10 * n + digit_val c) 0 s"

text \<open>
  Unary plus on a string (\<open>+n\<close>). The model covers the two forms a version component
  takes: the empty string, which converts to 0, and a run of decimal digits whose value
  is at most \<open>2 ^ 53 = 9007199254740992\<close>, which converts to that value exactly. Every other string (a sign,
  an exponent, a radix prefix, white space, \<open>Infinity\<close>, text that converts to NaN, a
  value that a double rounds) is outside the model: \<open>None\<close>.
\<close>

definition to_number :: "string \<Rightarrow> int option" where
  "to_number s =
     (if s = [] then Some 0
      else if list_all is_digit s \<and> dec s \<le> 9007199254740992 then Some (dec s)
      else None)"

text \<open>\<open>pa[i] || 0\<close>: a missing component reads as 0, and so does the number 0.\<close>

definition part_or_zero :: "string list \<Rightarrow> nat \<Rightarrow> int option" where
  "part_or_zero ps i = (if i < length ps then to_number (ps ! i) else Some 0)"

text \<open>
  The loop of \<open>cmpSemver\<close> from index \<open>i\<close>, with \<open>k\<close> iterations left: the first
  non-zero difference is returned, and 0 when the loop ends.
\<close>

fun cmp_from :: "string list \<Rightarrow> string list \<Rightarrow> nat \<Rightarrow> nat \<Rightarrow> int option" where
  "cmp_from pa pb i 0 = Some 0"
| "cmp_from pa pb i (Suc k) =
     (case part_or_zero pa i of
        None \<Rightarrow> None
      | Some x \<Rightarrow>
         (case part_or_zero pb i of
            None \<Rightarrow> None
          | Some y \<Rightarrow> (if x - y \<noteq> 0 then Some (x - y) else cmp_from pa pb (Suc i) k)))"

definition cmpSemver :: "string \<Rightarrow> string \<Rightarrow> int option" where
  "cmpSemver a b = cmp_from (split_on (CHR ''.'') a) (split_on (CHR ''.'') b) 0 3"

text \<open>A version component inside the model: a non-empty run of digits, at most \<open>2 ^ 53 = 9007199254740992\<close>.\<close>

definition ver_part :: "string \<Rightarrow> bool" where
  "ver_part s = (s \<noteq> [] \<and> list_all is_digit s \<and> dec s \<le> 9007199254740992)"

definition digits :: "string \<Rightarrow> bool" where
  "digits s = (s \<noteq> [] \<and> list_all is_digit s)"

definition dotted :: "string \<Rightarrow> string \<Rightarrow> string \<Rightarrow> string" where
  "dotted x y z = x @ ''.'' @ y @ ''.'' @ z"


section \<open>Regular expressions\<close>

abbreviation dq :: char where "dq \<equiv> CHR 0x22"
abbreviation sq :: char where "sq \<equiv> CHR 0x27"
abbreviation bslash :: char where "bslash \<equiv> CHR 0x5C"
abbreviation nl :: char where "nl \<equiv> CHR 0x0A"
abbreviation cr :: char where "cr \<equiv> CHR 0x0D"

text \<open>
  The patterns of the program are written as terms of \<open>rx\<close>, one constructor for each
  construct they use: a character or class (\<open>Atom\<close>), a greedy \<open>*\<close> over a class (\<open>Many\<close>),
  sequence, alternation \<open>|\<close>, a greedy \<open>?\<close>, a capture group with its number and the
  anchor \<open>^\<close> (\<open>Bol True\<close> under the flag \<open>m\<close>, \<open>Bol False\<close> without it). \<open>C+\<close> is
  \<open>C\<close> followed by \<open>C*\<close>.
\<close>

datatype rx =
    Atom "char \<Rightarrow> bool"
  | Many "char \<Rightarrow> bool"
  | Cat rx rx
  | Alt rx rx
  | Opt rx
  | Grp nat rx
  | Bol bool
  | Eps

type_synonym caps = "(nat \<times> string) list"

text \<open>
  A matcher state: the input before the position (last character first), the input
  from the position on, and the groups captured so far.
\<close>

type_synonym mstate = "string \<times> string \<times> caps"

text \<open>Greedy repetition over a class: one more character first, stopping here last.\<close>

fun many :: "(char \<Rightarrow> bool) \<Rightarrow> string \<Rightarrow> string \<Rightarrow> caps \<Rightarrow> mstate list" where
  "many p pre [] cs = [(pre, [], cs)]"
| "many p pre (c # r) cs =
     (if p c then many p (c # pre) r cs @ [(pre, c # r, cs)] else [(pre, c # r, cs)])"

definition is_line_end :: "char \<Rightarrow> bool" where
  "is_line_end c = (c = nl \<or> c = cr)"

text \<open>
  The backtracking matcher: every way the pattern matches at the position, in the order
  in which a backtracking engine tries them. The first one is the match.
\<close>

fun rmatch :: "rx \<Rightarrow> mstate \<Rightarrow> mstate list" where
  "rmatch (Atom p) (pre, rest, cs) =
     (case rest of [] \<Rightarrow> [] | c # r \<Rightarrow> (if p c then [(c # pre, r, cs)] else []))"
| "rmatch (Many p) (pre, rest, cs) = many p pre rest cs"
| "rmatch (Cat a b) st = concat (map (rmatch b) (rmatch a st))"
| "rmatch (Alt a b) st = rmatch a st @ rmatch b st"
| "rmatch (Opt a) st = rmatch a st @ [st]"
| "rmatch (Grp n a) (pre, rest, cs) =
     map (\<lambda>(pre', rest', cs'). (pre', rest', (n, take (length rest - length rest') rest) # cs'))
       (rmatch a (pre, rest, cs))"
| "rmatch (Bol multi) (pre, rest, cs) =
     (if pre = [] \<or> (multi \<and> is_line_end (hd pre)) then [(pre, rest, cs)] else [])"
| "rmatch Eps st = [st]"

text \<open>The state in which the first way of matching ends, if there is one.\<close>

definition first_is :: "rx \<Rightarrow> mstate \<Rightarrow> mstate \<Rightarrow> bool" where
  "first_is r st y = (case rmatch r st of [] \<Rightarrow> False | x # t \<Rightarrow> x = y)"

text \<open>A pattern without capture groups.\<close>

fun nogroups :: "rx \<Rightarrow> bool" where
  "nogroups (Cat a b) = (nogroups a \<and> nogroups b)"
| "nogroups (Alt a b) = (nogroups a \<and> nogroups b)"
| "nogroups (Opt a) = nogroups a"
| "nogroups (Grp n a) = False"
| "nogroups r = True"

text \<open>A match: the text before it, the matched text, the text after it, the groups.\<close>

record rmatched =
  before :: string
  matched :: string
  after :: string
  groups :: caps

definition found :: "string \<Rightarrow> string \<Rightarrow> mstate \<Rightarrow> rmatched" where
  "found pre rest st =
     (case st of (pre', rest', cs) \<Rightarrow>
        \<lparr>before = rev pre, matched = take (length rest - length rest') rest,
         after = rest', groups = cs\<rparr>)"

text \<open>
  \<open>RegExp.prototype.exec\<close> of a pattern without the flag \<open>g\<close>: the first position, from
  the left, at which the pattern matches.
\<close>

fun exec_from :: "rx \<Rightarrow> string \<Rightarrow> string \<Rightarrow> rmatched option" where
  "exec_from r pre [] =
     (case rmatch r (pre, [], []) of st # _ \<Rightarrow> Some (found pre [] st) | [] \<Rightarrow> None)"
| "exec_from r pre (c # t) =
     (case rmatch r (pre, c # t, []) of
        st # _ \<Rightarrow> Some (found pre (c # t) st)
      | [] \<Rightarrow> exec_from r (c # pre) t)"

definition exec :: "rx \<Rightarrow> string \<Rightarrow> rmatched option" where
  "exec r s = exec_from r [] s"

text \<open>A captured group: \<open>None\<close> is JavaScript's \<open>undefined\<close>.\<close>

definition group :: "caps \<Rightarrow> nat \<Rightarrow> string option" where
  "group cs n = map_of cs n"

definition seq :: "rx list \<Rightarrow> rx" where
  "seq rs = foldr Cat rs Eps"

definition lit :: "string \<Rightarrow> rx" where
  "lit s = seq (map (\<lambda>c. Atom (\<lambda>d. d = c)) s)"

definition plus :: "(char \<Rightarrow> bool) \<Rightarrow> rx" where
  "plus p = Cat (Atom p) (Many p)"

definition is_lower :: "char \<Rightarrow> bool" where
  "is_lower c = (97 \<le> ccode c \<and> ccode c \<le> 122)"

definition is_upper :: "char \<Rightarrow> bool" where
  "is_upper c = (65 \<le> ccode c \<and> ccode c \<le> 90)"

text \<open>
  Under the flag \<open>i\<close> a letter of the pattern matches both of its cases, and no code unit
  of 128 or more is folded onto an ASCII letter.
\<close>

definition to_lower :: "char \<Rightarrow> char" where
  "to_lower c = (if is_upper c then char_of (ccode c + 32) else c)"

definition lit_ci :: "string \<Rightarrow> rx" where
  "lit_ci s = seq (map (\<lambda>c. Atom (\<lambda>d. to_lower d = to_lower c)) s)"

text \<open>\<open>\s\<close>: the white space and line terminators below 256.\<close>

definition is_space :: "char \<Rightarrow> bool" where
  "is_space c = (ccode c \<in> {9, 10, 11, 12, 13, 32, 160})"

section \<open>Version header\<close>

text \<open>\<open>[a-z0-9-]\<close> under the flag \<open>i\<close>.\<close>

definition is_id_char :: "char \<Rightarrow> bool" where
  "is_id_char c = (is_lower c \<or> is_upper c \<or> is_digit c \<or> c = CHR ''-'')"

text \<open>A hook id that the pattern can read: one or more of these characters.\<close>

definition id_ok :: "string \<Rightarrow> bool" where
  "id_ok i = (i \<noteq> [] \<and> list_all is_id_char i)"

text \<open>\<open>/hook:([a-z0-9-]+)@([0-9]+\.[0-9]+\.[0-9]+)/i\<close>\<close>

definition hook_rx :: rx where
  "hook_rx =
     seq [lit_ci ''hook:'', Grp 1 (plus is_id_char), lit_ci ''@'',
          Grp 2 (seq [plus is_digit, lit ''.'', plus is_digit, lit ''.'', plus is_digit])]"

text \<open>
  The match of \<open>parseLocalHookVersion\<close> on the text of a file: \<open>None\<close> is the empty
  object \<open>{}\<close>, and \<open>Some (id, version)\<close> the object with both fields.
\<close>

definition decode_header :: "string \<Rightarrow> (string \<times> string) option" where
  "decode_header content =
     (case exec hook_rx (take 2048 content) of
        None \<Rightarrow> None
      | Some m \<Rightarrow>
          (case (group (groups m) 1, group (groups m) 2) of
             (Some i, Some v) \<Rightarrow> Some (i, v)
           | _ \<Rightarrow> None))"

text \<open>
  The header line that \<open>installHook\<close> writes: \<open>meta.version ?? "0.0.0"\<close> and
  \<open>registry.version ?? "0"\<close> stand for a version that is absent.
\<close>

definition header_line :: "string \<Rightarrow> string option \<Rightarrow> string option \<Rightarrow> string" where
  "header_line hid ver regver =
     ''/* Installed via wkkkis-hooks | hook:'' @ hid @ ''@'' @
     (case ver of None \<Rightarrow> ''0.0.0'' | Some v \<Rightarrow> v) @ '' | registry:'' @
     (case regver of None \<Rightarrow> ''0'' | Some v \<Rightarrow> v) @ '' */'' @ [nl]"



section \<open>Replacing\<close>

text \<open>
  The pieces into which a scan with the flag \<open>g\<close> cuts a string: a character outside
  every match, or a match with its groups. After a match the scan goes on where the match
  ended; after an empty match it copies one character and goes on behind it.
\<close>

datatype piece = Plain char | Hit string caps

function scan :: "rx \<Rightarrow> string \<Rightarrow> string \<Rightarrow> piece list" where
  "scan r pre rest =
     (case rmatch r (pre, rest, []) of
        [] \<Rightarrow> (case rest of [] \<Rightarrow> [] | c # t \<Rightarrow> Plain c # scan r (c # pre) t)
      | (pre', rest', cs) # _ \<Rightarrow>
          (if length rest' < length rest
           then Hit (take (length rest - length rest') rest) cs # scan r pre' rest'
           else (case rest of
                   [] \<Rightarrow> [Hit [] cs]
                 | c # t \<Rightarrow> Hit [] cs # Plain c # scan r (c # pre) t)))"
  by pat_completeness auto
termination
  by (relation "measure (\<lambda>(r, pre, rest). length rest)") auto

text \<open>
  \<open>String.prototype.replace\<close> with a pattern that has the flag \<open>g\<close> and a function as the
  replacement: the function's result is inserted as it is.
\<close>

definition render :: "(string \<Rightarrow> caps \<Rightarrow> string) \<Rightarrow> piece \<Rightarrow> string" where
  "render f p = (case p of Plain c \<Rightarrow> [c] | Hit m cs \<Rightarrow> f m cs)"

definition source :: "piece \<Rightarrow> string" where
  "source p = (case p of Plain c \<Rightarrow> [c] | Hit m cs \<Rightarrow> m)"

definition replace_all :: "rx \<Rightarrow> (string \<Rightarrow> caps \<Rightarrow> string) \<Rightarrow> string \<Rightarrow> string" where
  "replace_all r f s = concat (map (render f) (scan r [] s))"

text \<open>
  \<open>String.prototype.replace\<close> with a pattern without the flag \<open>g\<close>: only the first match
  is replaced.
\<close>

definition replace_first :: "rx \<Rightarrow> (rmatched \<Rightarrow> string) \<Rightarrow> string \<Rightarrow> string" where
  "replace_first r f s =
     (case exec r s of None \<Rightarrow> s | Some m \<Rightarrow> before m @ f m @ after m)"

text \<open>
  A replacement given as a string, for a pattern without capture groups: \<open>$$\<close> is a
  dollar sign, \<open>$&\<close> the match, \<open>$`\<close> the text before it and \<open>$'\<close> the text after it; every
  other dollar sign stands for itself.
\<close>

fun get_substitution :: "rmatched \<Rightarrow> string \<Rightarrow> string" where
  "get_substitution m [] = []"
| "get_substitution m [c] = [c]"
| "get_substitution m (c # d # ds) =
     (if c = CHR ''$'' then
        (if d = CHR ''$'' then CHR ''$'' # get_substitution m ds
         else if d = CHR ''&'' then matched m @ get_substitution m ds
         else if d = CHR 0x60 then before m @ get_substitution m ds
         else if d = sq then after m @ get_substitution m ds
         else c # get_substitution m (d # ds))
      else c # get_substitution m (d # ds))"

text \<open>\<open>p.replace(/\\/g, "/")\<close>\<close>

definition toPosixPath :: "string \<Rightarrow> string" where
  "toPosixPath p = replace_all (Atom (\<lambda>c. c = bslash)) (\<lambda>m cs. ''/'') p"

text \<open>\<open>/^(?:src\/)?hooks/\<close>\<close>

definition remap_rx :: rx where
  "remap_rx = seq [Bol False, Opt (lit ''src/''), lit ''hooks'']"

definition remapToBaseDir :: "string \<Rightarrow> string \<Rightarrow> string" where
  "remapToBaseDir originalTo baseDir =
     replace_first remap_rx (\<lambda>m. get_substitution m (toPosixPath baseDir))
       (toPosixPath originalTo)"

text \<open>\<open>/^\s*['"]use client['"];\s*\r?\n/\<close>\<close>

definition is_quote :: "char \<Rightarrow> bool" where
  "is_quote c = (c = sq \<or> c = dq)"

definition use_client_rx :: rx where
  "use_client_rx =
     seq [Bol False, Many is_space, Atom is_quote, lit ''use client'', Atom is_quote,
          lit '';'', Many is_space, Opt (lit [cr]), lit [nl]]"

definition removeUseClient :: "string \<Rightarrow> string" where
  "removeUseClient src = replace_first use_client_rx (\<lambda>m. []) src"

section \<open>Paths\<close>

text \<open>
  The functions of \<open>node:path\<close> that the program calls, for POSIX paths, modelled from the
  documentation of Node.js. \<open>wd\<close> is the working directory, \<open>process.cwd()\<close>.
\<close>

fun join_with :: "string \<Rightarrow> string list \<Rightarrow> string" where
  "join_with sep [] = []"
| "join_with sep [x] = x"
| "join_with sep (x # y # ys) = x @ sep @ join_with sep (y # ys)"

text \<open>
  One segment of a path being normalized: an empty segment and \<open>.\<close> are dropped, \<open>..\<close>
  removes the segment before it, and is kept only where the path may rise above its
  start.
\<close>

definition norm_step :: "bool \<Rightarrow> string list \<Rightarrow> string \<Rightarrow> string list" where
  "norm_step rise st seg =
     (if seg = [] \<or> seg = ''.'' then st
      else if seg = ''..'' then
        (if st \<noteq> [] \<and> last st \<noteq> ''..'' then butlast st
         else if rise then st @ [''..''] else st)
      else st @ [seg])"

definition normalizeString :: "string \<Rightarrow> bool \<Rightarrow> string" where
  "normalizeString p rise =
     join_with ''/'' (foldl (norm_step rise) [] (split_on (CHR ''/'') p))"

text \<open>
  \<open>path.resolve\<close>: the arguments are joined from the right until one of them is absolute,
  the working directory coming after the leftmost one; the result is normalized.
\<close>

fun resolve_acc :: "string list \<Rightarrow> string \<Rightarrow> string \<times> bool" where
  "resolve_acc [] acc = (acc, False)"
| "resolve_acc (p # ps) acc =
     (if p = [] then resolve_acc ps acc
      else if hd p = CHR ''/'' then (p @ ''/'' @ acc, True)
      else resolve_acc ps (p @ ''/'' @ acc))"

definition path_resolve :: "string \<Rightarrow> string list \<Rightarrow> string" where
  "path_resolve wd args =
     (case resolve_acc (rev (wd # args)) [] of
        (joined, absolute) \<Rightarrow>
          (if absolute then ''/'' @ normalizeString joined False
           else if normalizeString joined True = [] then ''.''
           else normalizeString joined True))"

text \<open>A segment of a normalized absolute path.\<close>

definition normal_seg :: "string \<Rightarrow> bool" where
  "normal_seg s = (s \<noteq> [] \<and> s \<noteq> ''.'' \<and> s \<noteq> ''..'' \<and> CHR ''/'' \<notin> set s)"

definition segments :: "string \<Rightarrow> string list" where
  "segments p = filter (\<lambda>s. s \<noteq> []) (split_on (CHR ''/'') p)"

fun drop_common :: "string list \<Rightarrow> string list \<Rightarrow> string list \<times> string list" where
  "drop_common (a # as) (b # bs) = (if a = b then drop_common as bs else (a # as, b # bs))"
| "drop_common as bs = (as, bs)"

text \<open>
  \<open>path.relative\<close>: both paths are resolved; the result climbs with one \<open>..\<close> for each
  segment of \<open>from\<close> below the common directory and then descends along the segments of
  \<open>to\<close> below it. It is empty when both are the same path.
\<close>

definition path_relative :: "string \<Rightarrow> string \<Rightarrow> string \<Rightarrow> string" where
  "path_relative wd from to =
     (if from = to then []
      else (case drop_common (segments (path_resolve wd [from]))
                    (segments (path_resolve wd [to])) of
              (f, t) \<Rightarrow> join_with ''/'' (replicate (length f) ''..'' @ t)))"

text \<open>
  \<open>path.dirname\<close>: the path up to the last slash that has a character other than a slash
  behind it, the slash at index 0 apart.
\<close>

fun dirname_end :: "string \<Rightarrow> bool \<Rightarrow> nat option" where
  "dirname_end [] matchedSlash = None"
| "dirname_end (c # cs) matchedSlash =
     (if c = CHR ''/'' then
        (if \<not> matchedSlash then Some (Suc (length cs)) else dirname_end cs True)
      else dirname_end cs False)"

definition path_dirname :: "string \<Rightarrow> string" where
  "path_dirname p =
     (if p = [] then ''.''
      else (case dirname_end (rev (tl p)) True of
              None \<Rightarrow> (if hd p = CHR ''/'' then ''/'' else ''.'')
            | Some e \<Rightarrow> (if hd p = CHR ''/'' \<and> e = 1 then ''//'' else take e p)))"

text \<open>\<open>path.basename\<close>: the last segment, slashes at the end left out.\<close>

definition path_basename :: "string \<Rightarrow> string" where
  "path_basename p =
     rev (takeWhile (\<lambda>c. c \<noteq> CHR ''/'') (dropWhile (\<lambda>c. c = CHR ''/'') (rev p)))"

text \<open>
  \<open>path.parse(p).name\<close>: the base name without its extension. The extension starts at the
  last dot of the base name, unless that dot is its first character or the base name is
  \<open>..\<close>.
\<close>

definition parse_name :: "string \<Rightarrow> string" where
  "parse_name p =
     (let b = path_basename p;
          e = length (takeWhile (\<lambda>c. c \<noteq> CHR ''.'') (rev b))
      in if CHR ''.'' \<notin> set b \<or> Suc e = length b \<or> b = ''..'' then b
         else take (length b - Suc e) b)"

definition fileBaseName :: "string \<Rightarrow> string" where
  "fileBaseName destPath = parse_name destPath"

section \<open>rewriteAliasImports\<close>

definition not_quote :: "char \<Rightarrow> bool" where
  "not_quote c = (\<not> is_quote c)"

text \<open>
  The pattern that \<open>rewriteAliasImports\<close> builds, with its twelve groups. \<open>escapeRegex\<close>
  puts a backslash before every character of the prefix that a pattern reads as syntax,
  so the escaped prefix matches the prefix character by character: \<open>lit pfx\<close>.
\<close>

definition from_rx :: "string \<Rightarrow> rx" where
  "from_rx pfx =
     seq [Grp 1 (seq [lit ''from'', plus is_space, Atom is_quote]),
          lit pfx, Grp 2 (plus not_quote), Grp 3 (Atom is_quote)]"

definition import_rx :: "string \<Rightarrow> rx" where
  "import_rx pfx =
     seq [Grp 4 (seq [lit ''import'', Many is_space, lit ''('', Many is_space, Atom is_quote]),
          lit pfx, Grp 5 (plus not_quote),
          Grp 6 (seq [Atom is_quote, Many is_space, lit '')''])]"

definition export_rx :: "string \<Rightarrow> rx" where
  "export_rx pfx =
     seq [Grp 7 (seq [lit ''export'', Many is_space, lit ''*'', Many is_space, lit ''from'',
                      Many is_space, Atom is_quote]),
          lit pfx, Grp 8 (plus not_quote), Grp 9 (Atom is_quote)]"

definition require_rx :: "string \<Rightarrow> rx" where
  "require_rx pfx =
     seq [Grp 10 (seq [lit ''require('', Many is_space, Atom is_quote]),
          lit pfx, Grp 11 (plus not_quote),
          Grp 12 (seq [Atom is_quote, Many is_space, lit '')''])]"

definition alias_rx :: "string \<Rightarrow> rx" where
  "alias_rx pfx =
     Alt (from_rx pfx) (Alt (import_rx pfx) (Alt (export_rx pfx) (require_rx pfx)))"

text \<open>
  The loop of the callback over \<open>groups[0], groups[3], groups[6], groups[9]\<close>: the first
  of them that is a non-empty string gives \<open>left\<close>, \<open>subpath\<close> and \<open>right\<close>, which are
  empty strings when there is none.
\<close>

fun pick_groups :: "caps \<Rightarrow> nat list \<Rightarrow> string \<times> string option \<times> string option" where
  "pick_groups cs [] = ([], Some [], Some [])"
| "pick_groups cs (i # is) =
     (case group cs (Suc i) of
        None \<Rightarrow> pick_groups cs is
      | Some l \<Rightarrow>
          (if l \<noteq> [] then (l, group cs (i + 2), group cs (i + 3)) else pick_groups cs is))"

text \<open>A value inside a template string: \<open>undefined\<close> prints as its name.\<close>

definition shown :: "string option \<Rightarrow> string" where
  "shown v = (case v of None \<Rightarrow> ''undefined'' | Some s \<Rightarrow> s)"

definition starts_with :: "string \<Rightarrow> string \<Rightarrow> bool" where
  "starts_with s p = (take (length p) s = p)"

definition ends_with :: "string \<Rightarrow> string \<Rightarrow> bool" where
  "ends_with s p = (length p \<le> length s \<and> drop (length s - length p) s = p)"

definition relative_import :: "string \<Rightarrow> string \<Rightarrow> string \<Rightarrow> string \<Rightarrow> string" where
  "relative_import wd targetAbs destAbsFile subpath =
     (let abs = path_resolve wd [targetAbs, subpath];
          rel = toPosixPath (path_relative wd (path_dirname destAbsFile) abs)
      in if starts_with rel ''.'' then rel else ''./'' @ rel)"

definition alias_callback :: "string \<Rightarrow> string \<Rightarrow> string \<Rightarrow> string \<Rightarrow> caps \<Rightarrow> string" where
  "alias_callback wd targetAbs destAbsFile m cs =
     (case pick_groups cs [0, 3, 6, 9] of
        (left, subpath, right) \<Rightarrow>
          (case subpath of
             None \<Rightarrow> m
           | Some sp \<Rightarrow>
               (if sp = [] then m
                else left @ relative_import wd targetAbs destAbsFile sp @ shown right)))"

definition normalized_prefix :: "string \<Rightarrow> string" where
  "normalized_prefix aliasPrefix =
     (if ends_with aliasPrefix ''/'' then aliasPrefix else aliasPrefix @ ''/'')"

definition rewriteAliasImports ::
  "string \<Rightarrow> string \<Rightarrow> string option \<Rightarrow> string option \<Rightarrow> string \<Rightarrow> string \<Rightarrow> string" where
  "rewriteAliasImports wd code aliasPrefix aliasTarget destAbsFile projectRootAbs =
     (case aliasPrefix of
        None \<Rightarrow> code
      | Some ap \<Rightarrow>
         (case aliasTarget of
            None \<Rightarrow> code
          | Some tgt \<Rightarrow>
              (if ap = [] \<or> tgt = [] then code
               else replace_all (alias_rx (normalized_prefix ap))
                      (alias_callback wd (path_resolve wd [projectRootAbs, tgt]) destAbsFile)
                      code)))"


section \<open>Files, configuration and the registry\<close>

text \<open>
  The file system is an association list from paths to nodes, in the order in which a
  directory lists its entries. Paths are compared as strings: the program passes only
  normalized absolute paths (results of \<open>path.resolve\<close>, and such a path with \<open>.bak\<close>
  behind it) to the file system. The root directory always exists. Symbolic links are not
  modelled.
\<close>

datatype node = File string | Dir

type_synonym filesys = "(string \<times> node) list"

datatype error =
    UnknownHook string
  | FetchError string
  | FsError string string
  | UsageError
  | PatternError string

record ProjectConfig =
  baseDir :: string
  addIndex :: bool
  stripUseClient :: bool
  aliasPrefix :: "string option"
  aliasTarget :: "string option"

definition DEFAULT_CFG :: ProjectConfig where
  "DEFAULT_CFG =
     \<lparr>baseDir = ''src/hooks'', addIndex = True, stripUseClient = False,
      aliasPrefix = None, aliasTarget = None\<rparr>"

text \<open>
  The state that the commands change: the files, and the configuration that
  \<open>readConfig()\<close> returns (\<open>None\<close> when no \<open>hooks.config.json\<close> is found or it does not
  parse). \<open>JSON.parse\<close> is not modelled: \<open>saved_config\<close> stands for what \<open>readConfig\<close>
  finds and parses, and \<open>writeConfig\<close>, which writes the text of the configuration file
  into the files, stores with it the configuration that this text parses to.
\<close>

record world =
  files :: filesys
  saved_config :: "ProjectConfig option"

record hook_entry =
  hook_id :: string
  hook_path :: string

record file_desc =
  src_from :: string
  dest_to :: string

record hook_meta =
  meta_id :: string
  meta_name :: string
  meta_version :: "string option"
  meta_files :: "file_desc list"

record registry =
  baseUrl :: string
  reg_version :: "string option"
  hooks :: "hook_entry list"

text \<open>
  What is outside the program: the working directory, and the answers of the network. The
  registry and the metadata are typed records here; a fetch that fails is an error value.
  \<open>regexp_exec\<close> is the answer of the engine for a pattern that \<open>cmdRemove\<close> builds from a
  base name with pattern syntax in it, given the source of the pattern and a text: the
  \<open>SyntaxError\<close> of \<open>new RegExp\<close>, or the first match in the text, if there is one.
\<close>

record env =
  wd :: string
  registry_json :: "error + registry"
  meta_json :: "string \<Rightarrow> error + hook_meta"
  raw_text :: "string \<Rightarrow> error + string"
  regexp_exec :: "string \<Rightarrow> string \<Rightarrow> error + rmatched option"

text \<open>
  A step of a command: it reads the state and returns an error or a value, with the state
  it leaves. An error ends the command; what was written before it stays written.
\<close>

type_synonym 'a io = "world \<Rightarrow> (error + 'a) \<times> world"

definition io_return :: "'a \<Rightarrow> 'a io" where
  "io_return x = (\<lambda>w. (Inr x, w))"

definition io_throw :: "error \<Rightarrow> 'a io" where
  "io_throw e = (\<lambda>w. (Inl e, w))"

definition io_bind :: "'a io \<Rightarrow> ('a \<Rightarrow> 'b io) \<Rightarrow> 'b io" where
  "io_bind m f = (\<lambda>w. case m w of (Inl e, w') \<Rightarrow> (Inl e, w') | (Inr x, w') \<Rightarrow> f x w')"

definition io_lift :: "error + 'a \<Rightarrow> 'a io" where
  "io_lift r = (case r of Inl e \<Rightarrow> io_throw e | Inr x \<Rightarrow> io_return x)"

definition lookup :: "filesys \<Rightarrow> string \<Rightarrow> node option" where
  "lookup fs p = (if p = ''/'' then Some Dir else map_of fs p)"

definition existsSync :: "string \<Rightarrow> bool io" where
  "existsSync p = (\<lambda>w. (Inr (lookup (files w) p \<noteq> None), w))"

definition readFile :: "string \<Rightarrow> string io" where
  "readFile p = (\<lambda>w.
     (case lookup (files w) p of
        Some (File c) \<Rightarrow> (Inr c, w)
      | Some Dir \<Rightarrow> (Inl (FsError ''EISDIR'' p), w)
      | None \<Rightarrow> (Inl (FsError ''ENOENT'' p), w)))"

text \<open>Writing needs the directory of the path, and fails on a directory.\<close>

definition writeFile :: "string \<Rightarrow> string \<Rightarrow> unit io" where
  "writeFile p c = (\<lambda>w.
     (case lookup (files w) p of
        Some Dir \<Rightarrow> (Inl (FsError ''EISDIR'' p), w)
      | _ \<Rightarrow>
        (case lookup (files w) (path_dirname p) of
           Some Dir \<Rightarrow> (Inr (), w\<lparr>files := AList.update p (File c) (files w)\<rparr>)
         | Some (File x) \<Rightarrow> (Inl (FsError ''ENOTDIR'' p), w)
         | None \<Rightarrow> (Inl (FsError ''ENOENT'' p), w))))"

definition appendFile :: "string \<Rightarrow> string \<Rightarrow> unit io" where
  "appendFile p c = (\<lambda>w.
     (case lookup (files w) p of
        Some (File old) \<Rightarrow> writeFile p (old @ c) w
      | _ \<Rightarrow> writeFile p c w))"

definition copyFile :: "string \<Rightarrow> string \<Rightarrow> unit io" where
  "copyFile src dst = io_bind (readFile src) (\<lambda>c. writeFile dst c)"

definition unlink :: "string \<Rightarrow> unit io" where
  "unlink p = (\<lambda>w.
     (case lookup (files w) p of
        Some (File c) \<Rightarrow> (Inr (), w\<lparr>files := AList.delete p (files w)\<rparr>)
      | Some Dir \<Rightarrow> (Inl (FsError ''EISDIR'' p), w)
      | None \<Rightarrow> (Inl (FsError ''ENOENT'' p), w)))"

text \<open>A path and the directories above it, the root apart, the deepest first.\<close>

fun up_chain :: "nat \<Rightarrow> string \<Rightarrow> string list" where
  "up_chain 0 p = []"
| "up_chain (Suc n) p = (if path_dirname p = p then [] else p # up_chain n (path_dirname p))"

definition is_file :: "node option \<Rightarrow> bool" where
  "is_file n = (case n of Some (File c) \<Rightarrow> True | _ \<Rightarrow> False)"

text \<open>
  \<open>fs.promises.mkdir(d, { recursive: true })\<close>: the directory and those above it are
  created where they are missing; it fails when one of them is a file.
\<close>

definition ensureDir :: "string \<Rightarrow> unit io" where
  "ensureDir d = (\<lambda>w.
     (let chain = up_chain (Suc (length d)) d in
      if list_ex (\<lambda>p. is_file (lookup (files w) p)) chain
      then (Inl (FsError ''EEXIST'' d), w)
      else (Inr (), w\<lparr>files := foldr (\<lambda>p fs. AList.update p Dir fs) chain (files w)\<rparr>)))"

text \<open>
  \<open>walk\<close>: the files below a directory, each directory in the order of its entries. An
  entry of a directory is a path that has the directory as its \<open>path.dirname\<close> and is
  longer than it.
\<close>

function walk :: "filesys \<Rightarrow> string \<Rightarrow> string list" where
  "walk fs d =
     concat (map (\<lambda>(p, n).
        if path_dirname p = d \<and> length d < length p
        then (case n of Dir \<Rightarrow> walk fs p | File c \<Rightarrow> [p])
        else []) fs)"
  by pat_completeness auto
termination
proof (relation "measure (\<lambda>(fs, d). sum_list (map (\<lambda>e. length (fst e)) fs) - length d)")
  show "wf (measure (\<lambda>(fs, d). sum_list (map (\<lambda>e. length (fst e)) fs) - length d))"
    by simp
next
  fix fs :: filesys and d :: string and x :: "string \<times> node" and p :: string and n :: node
  assume mem: "x \<in> set fs" and x: "(p, n) = x"
    and cond: "path_dirname p = d \<and> length d < length p"
  from mem have "length (fst x) \<le> sum_list (map (\<lambda>e. length (fst e)) fs)"
    by (induction fs) auto
  with x cond show "((fs, p), (fs, d)) \<in>
      measure (\<lambda>(fs, d). sum_list (map (\<lambda>e. length (fst e)) fs) - length d)"
    by auto
qed

definition walk_dir :: "string \<Rightarrow> string list io" where
  "walk_dir d = (\<lambda>w.
     (case lookup (files w) d of
        Some Dir \<Rightarrow> (Inr (walk (files w) d), w)
      | Some (File c) \<Rightarrow> (Inl (FsError ''ENOTDIR'' d), w)
      | None \<Rightarrow> (Inl (FsError ''ENOENT'' d), w)))"

definition cwd_path :: "env \<Rightarrow> string list \<Rightarrow> string" where
  "cwd_path e ps = path_resolve (wd e) ps"

definition readConfig :: "world \<Rightarrow> ProjectConfig option" where
  "readConfig w = saved_config w"

definition CONFIG_FILE :: string where
  "CONFIG_FILE = ''hooks.config.json''"

text \<open>
  \<open>JSON.stringify(cfg, null, 2)\<close> for a configuration: the members in the order in which
  the object is written, two spaces before each, a member that is \<open>undefined\<close> left out.
  In a string the quotation mark, the backslash and the characters below 32 are escaped.
\<close>

definition hex_digit :: "nat \<Rightarrow> char" where
  "hex_digit n = ''0123456789abcdef'' ! (n mod 16)"

definition json_char :: "char \<Rightarrow> string" where
  "json_char c =
     (if c = dq then [bslash, dq]
      else if c = bslash then [bslash, bslash]
      else if c = CHR 0x08 then [bslash, CHR ''b'']
      else if c = CHR 0x0C then [bslash, CHR ''f'']
      else if c = nl then [bslash, CHR ''n'']
      else if c = cr then [bslash, CHR ''r'']
      else if c = CHR 0x09 then [bslash, CHR ''t'']
      else if ccode c < 32
        then [bslash, CHR ''u'', CHR ''0'', CHR ''0'', hex_digit (ccode c div 16),
              hex_digit (ccode c)]
      else [c])"

definition json_string :: "string \<Rightarrow> string" where
  "json_string s = [dq] @ concat (map json_char s) @ [dq]"

definition json_bool :: "bool \<Rightarrow> string" where
  "json_bool b = (if b then ''true'' else ''false'')"

definition json_member :: "string \<Rightarrow> string \<Rightarrow> string" where
  "json_member key v = ''  '' @ json_string key @ '': '' @ v"

definition config_json :: "ProjectConfig \<Rightarrow> string" where
  "config_json cfg =
     ''{'' @ [nl] @
     join_with ('','' @ [nl])
       ([json_member ''baseDir'' (json_string (baseDir cfg)),
         json_member ''addIndex'' (json_bool (addIndex cfg)),
         json_member ''stripUseClient'' (json_bool (stripUseClient cfg))] @
        (case aliasPrefix cfg of
           None \<Rightarrow> []
         | Some a \<Rightarrow> [json_member ''aliasPrefix'' (json_string a)]) @
        (case aliasTarget cfg of
           None \<Rightarrow> []
         | Some t \<Rightarrow> [json_member ''aliasTarget'' (json_string t)])) @
     [nl] @ ''}''"

text \<open>
  \<open>writeConfig\<close>: the text and a line break are written to \<open>hooks.config.json\<close> in the
  working directory, where \<open>readConfig\<close> looks first; then the base directory is made.
\<close>

definition writeConfig :: "env \<Rightarrow> ProjectConfig \<Rightarrow> unit io" where
  "writeConfig e cfg =
     io_bind (writeFile (cwd_path e [CONFIG_FILE]) (config_json cfg @ [nl])) (\<lambda>u1.
     io_bind (\<lambda>w. (Inr (), w\<lparr>saved_config := Some cfg\<rparr>)) (\<lambda>u2.
     ensureDir (cwd_path e [baseDir cfg])))"

text \<open>\<open>backupFile\<close>: the path of the copy, or \<open>None\<close> when there is nothing to copy.\<close>

definition backupFile :: "string \<Rightarrow> string option io" where
  "backupFile filePath =
     io_bind (existsSync filePath) (\<lambda>ex.
       if \<not> ex then io_return None
       else io_bind (copyFile filePath (filePath @ ''.bak'')) (\<lambda>u.
              io_return (Some (filePath @ ''.bak''))))"

text \<open>
  \<open>parseLocalHookVersion\<close>: the empty object for a path that does not exist, else the
  match on the first 2048 code units of the file.
\<close>

definition parseLocalHookVersion :: "string \<Rightarrow> (string \<times> string) option io" where
  "parseLocalHookVersion filePath =
     io_bind (existsSync filePath) (\<lambda>ex.
       if \<not> ex then io_return None
       else io_bind (readFile filePath) (\<lambda>content. io_return (decode_header content)))"

section \<open>installHook\<close>

record options =
  dry :: bool
  force :: bool
  opt_stripUseClient :: "bool option"

text \<open>\<open>String.prototype.includes\<close>\<close>

fun str_includes :: "string \<Rightarrow> string \<Rightarrow> bool" where
  "str_includes [] sub = (sub = [])"
| "str_includes (c # t) sub = (starts_with (c # t) sub \<or> str_includes t sub)"

text \<open>The number of positions at which \<open>sub\<close> occurs in a string.\<close>

fun occurrences :: "string \<Rightarrow> string \<Rightarrow> nat" where
  "occurrences [] sub = (if sub = [] then 1 else 0)"
| "occurrences (c # t) sub = (if starts_with (c # t) sub then 1 else 0) + occurrences t sub"

definition find_hook :: "registry \<Rightarrow> string \<Rightarrow> hook_entry option" where
  "find_hook reg hookId = find (\<lambda>h. hook_id h = hookId) (hooks reg)"

definition meta_url :: "registry \<Rightarrow> hook_entry \<Rightarrow> string" where
  "meta_url reg entry = baseUrl reg @ ''/'' @ hook_path entry @ ''/meta.json''"

definition dest_of :: "env \<Rightarrow> string \<Rightarrow> file_desc \<Rightarrow> string" where
  "dest_of e base f = cwd_path e [remapToBaseDir (dest_to f) base]"

definition export_line :: "string \<Rightarrow> string" where
  "export_line name = ''export * from '' @ [dq] @ ''./'' @ name @ [dq] @ '';'' @ [nl]"

text \<open>
  The body of the loop over \<open>meta.files\<close>; its value is the new \<open>lastExportName\<close>.
\<close>

definition install_file ::
  "env \<Rightarrow> registry \<Rightarrow> hook_entry \<Rightarrow> hook_meta \<Rightarrow> ProjectConfig \<Rightarrow> bool \<Rightarrow> string \<Rightarrow>
   options \<Rightarrow> file_desc \<Rightarrow> string io" where
  "install_file e reg entry meta cfg stripClient base opts f =
     (let dest = dest_of e base f;
          src = baseUrl reg @ ''/'' @ hook_path entry @ ''/'' @ src_from f
      in if dry opts then io_return (fileBaseName dest)
         else
           io_bind (io_lift (raw_text e src)) (\<lambda>fetched.
           let stripped = (if stripClient then removeUseClient fetched else fetched);
               content = rewriteAliasImports (wd e) stripped (aliasPrefix cfg) (aliasTarget cfg)
                           dest (wd e)
           in
           io_bind (ensureDir (path_dirname dest)) (\<lambda>u1.
           let header = header_line (meta_id meta) (meta_version meta) (reg_version reg) in
           io_bind (existsSync dest) (\<lambda>ex.
           io_bind (if ex \<and> \<not> force opts then backupFile dest else io_return None) (\<lambda>bak.
           io_bind (writeFile dest (header @ content)) (\<lambda>u2.
           io_return (fileBaseName dest)))))))"

fun install_files ::
  "env \<Rightarrow> registry \<Rightarrow> hook_entry \<Rightarrow> hook_meta \<Rightarrow> ProjectConfig \<Rightarrow> bool \<Rightarrow> string \<Rightarrow>
   options \<Rightarrow> file_desc list \<Rightarrow> string option \<Rightarrow> string option io" where
  "install_files e reg entry meta cfg stripClient base opts [] lastExportName =
     io_return lastExportName"
| "install_files e reg entry meta cfg stripClient base opts (f # fs) lastExportName =
     io_bind (install_file e reg entry meta cfg stripClient base opts f) (\<lambda>name.
       install_files e reg entry meta cfg stripClient base opts fs (Some name))"

text \<open>The part of \<open>installHook\<close> after the loop, which maintains \<open>index.ts\<close>.\<close>

definition update_index :: "env \<Rightarrow> string \<Rightarrow> options \<Rightarrow> string \<Rightarrow> unit io" where
  "update_index e base opts lastExportName =
     (let indexPath = cwd_path e [base, ''index.ts''];
          exportLine = export_line lastExportName
      in if dry opts then io_return ()
         else
           io_bind (existsSync indexPath) (\<lambda>ex.
             if ex then
               io_bind (readFile indexPath) (\<lambda>curr.
                 if \<not> str_includes curr exportLine then appendFile indexPath exportLine
                 else io_return ())
             else
               io_bind (ensureDir (path_dirname indexPath)) (\<lambda>u.
                 writeFile indexPath exportLine)))"

definition installHook :: "env \<Rightarrow> string \<Rightarrow> string \<Rightarrow> bool \<Rightarrow> options \<Rightarrow> unit io" where
  "installHook e hookId base addIdx opts =
     io_bind (io_lift (registry_json e)) (\<lambda>reg.
       case find_hook reg hookId of
         None \<Rightarrow> io_throw (UnknownHook hookId)
       | Some entry \<Rightarrow>
           io_bind (io_lift (meta_json e (meta_url reg entry))) (\<lambda>meta.
           io_bind (\<lambda>w. (Inr (case readConfig w of None \<Rightarrow> DEFAULT_CFG | Some c \<Rightarrow> c), w)) (\<lambda>cfg.
           let stripClient =
                 (case opt_stripUseClient opts of None \<Rightarrow> stripUseClient cfg | Some b \<Rightarrow> b)
           in
           io_bind (install_files e reg entry meta cfg stripClient base opts (meta_files meta) None)
             (\<lambda>lastExportName.
                case lastExportName of
                  None \<Rightarrow> io_return ()
                | Some name \<Rightarrow>
                    if addIdx \<and> name \<noteq> [] then update_index e base opts name
                    else io_return ()))))"

section \<open>The commands add, update, remove and migrate\<close>

text \<open>
  \<open>opts?.baseDir ?? cfg?.baseDir ?? "src/hooks"\<close> and
  \<open>typeof opts?.addIndex === "boolean" ? opts.addIndex : cfg?.addIndex ?? true\<close>
\<close>

definition pick_baseDir :: "string option \<Rightarrow> ProjectConfig option \<Rightarrow> string" where
  "pick_baseDir o_base cfg =
     (case o_base of
        Some b \<Rightarrow> b
      | None \<Rightarrow> (case cfg of Some c \<Rightarrow> baseDir c | None \<Rightarrow> ''src/hooks''))"

definition pick_addIndex :: "bool option \<Rightarrow> ProjectConfig option \<Rightarrow> bool" where
  "pick_addIndex o_idx cfg =
     (case o_idx of
        Some b \<Rightarrow> b
      | None \<Rightarrow> (case cfg of Some c \<Rightarrow> addIndex c | None \<Rightarrow> True))"

definition pick_strip :: "ProjectConfig option \<Rightarrow> bool" where
  "pick_strip cfg = (case cfg of Some c \<Rightarrow> stripUseClient c | None \<Rightarrow> False)"

text \<open>
  \<open>cmdAdd\<close>: \<open>answer\<close> is what the prompt returns when no hook is named on the command
  line.
\<close>

definition cmdAdd ::
  "env \<Rightarrow> string option \<Rightarrow> string option \<Rightarrow> string option \<Rightarrow> bool option \<Rightarrow> unit io" where
  "cmdAdd e hookId answer o_base o_idx =
     (\<lambda>w.
        let cfg = readConfig w in
        io_bind (io_lift (registry_json e)) (\<lambda>reg.
          let chosen = (case hookId of
                          Some h \<Rightarrow> (if h \<noteq> [] then Some h else answer)
                        | None \<Rightarrow> answer)
          in (case chosen of
                None \<Rightarrow> io_return ()
              | Some h \<Rightarrow>
                  if h = [] then io_return ()
                  else installHook e h (pick_baseDir o_base cfg) (pick_addIndex o_idx cfg)
                         \<lparr>dry = False, force = False,
                          opt_stripUseClient = Some (pick_strip cfg)\<rparr>)) w)"

definition cmdUpdate ::
  "env \<Rightarrow> string \<Rightarrow> string option \<Rightarrow> bool option \<Rightarrow> bool \<Rightarrow> bool \<Rightarrow> unit io" where
  "cmdUpdate e hookId o_base o_idx o_dry o_force =
     (\<lambda>w.
        let cfg = readConfig w in
        installHook e hookId (pick_baseDir o_base cfg) (pick_addIndex o_idx cfg)
          \<lparr>dry = o_dry, force = o_force, opt_stripUseClient = Some (pick_strip cfg)\<rparr> w)"

text \<open>
  The pattern of \<open>cmdRemove\<close>, \<open>^export \* from "\./${base}";\r?\n?\<close> with the flag \<open>m\<close>.
  The base name is put into the pattern as it is, so a dot in it matches any character
  but a line terminator. For a base name with another character that a pattern reads as
  syntax the pattern is not written as a term of \<open>rx\<close>: what the engine does with its
  source is the answer \<open>regexp_exec\<close> of the environment.
\<close>

definition is_rx_syntax :: "char \<Rightarrow> bool" where
  "is_rx_syntax c = (c \<in> set ''*+?^${}()|[]'' \<or> c = bslash)"

definition raw_atom :: "char \<Rightarrow> rx" where
  "raw_atom c = (if c = CHR ''.'' then Atom (\<lambda>d. \<not> is_line_end d) else Atom (\<lambda>d. d = c))"

definition remove_rx :: "string \<Rightarrow> rx" where
  "remove_rx base =
     seq [Bol True, lit ''export * from '', lit [dq], lit ''./'', seq (map raw_atom base),
          lit [dq], lit '';'', Opt (lit [cr]), Opt (lit [nl])]"

definition remove_source :: "string \<Rightarrow> string" where
  "remove_source base =
     ''^export '' @ [bslash] @ ''* from '' @ [dq] @ [bslash] @ ''./'' @ base @ [dq] @ '';'' @
     [bslash] @ ''r?'' @ [bslash] @ ''n?''"

text \<open>
  The loop body for one index file: \<open>reg.test(curr)\<close>, and \<open>curr.replace(reg, "")\<close>, which
  takes the first match out of the text.
\<close>

definition prune_index :: "env \<Rightarrow> string \<Rightarrow> string \<Rightarrow> unit io" where
  "prune_index e indexPath base =
     io_bind (existsSync indexPath) (\<lambda>ex.
       if \<not> ex then io_return ()
       else
         io_bind (readFile indexPath) (\<lambda>curr.
           if list_ex is_rx_syntax base then
             io_bind (io_lift (regexp_exec e (remove_source base) curr)) (\<lambda>hit.
               case hit of
                 None \<Rightarrow> io_return ()
               | Some m \<Rightarrow> writeFile indexPath (before m @ after m))
           else (case exec (remove_rx base) curr of
                   None \<Rightarrow> io_return ()
                 | Some m \<Rightarrow>
                     writeFile indexPath (replace_first (remove_rx base) (\<lambda>m. []) curr))))"

definition remove_file :: "env \<Rightarrow> string \<Rightarrow> file_desc \<Rightarrow> unit io" where
  "remove_file e base f =
     (let dest = dest_of e base f; name = fileBaseName dest in
      io_bind (existsSync dest) (\<lambda>ex.
      io_bind (if ex then unlink dest else io_return ()) (\<lambda>u1.
      io_bind (prune_index e (cwd_path e [base, ''index.ts'']) name) (\<lambda>u2.
      prune_index e (cwd_path e [base, ''index.js'']) name))))"

fun remove_files :: "env \<Rightarrow> string \<Rightarrow> file_desc list \<Rightarrow> unit io" where
  "remove_files e base [] = io_return ()"
| "remove_files e base (f # fs) = io_bind (remove_file e base f) (\<lambda>u. remove_files e base fs)"

definition cmdRemove :: "env \<Rightarrow> string \<Rightarrow> string option \<Rightarrow> unit io" where
  "cmdRemove e hookId o_base =
     (\<lambda>w.
        let cfg = readConfig w; base = pick_baseDir o_base cfg in
        io_bind (io_lift (registry_json e)) (\<lambda>reg.
          case find_hook reg hookId of
            None \<Rightarrow> io_throw (UnknownHook hookId)
          | Some entry \<Rightarrow>
              io_bind (io_lift (meta_json e (meta_url reg entry))) (\<lambda>meta.
                remove_files e base (meta_files meta))) w)"

text \<open>The loop of \<open>cmdMigrate\<close> that copies the files by their base names.\<close>

fun copy_flat :: "env \<Rightarrow> string \<Rightarrow> string list \<Rightarrow> unit io" where
  "copy_flat e newBaseDir [] = io_return ()"
| "copy_flat e newBaseDir (full # rest) =
     io_bind (copyFile full (cwd_path e [newBaseDir, path_basename full])) (\<lambda>u.
       copy_flat e newBaseDir rest)"

definition recognized :: "string \<Rightarrow> bool" where
  "recognized p = (ends_with p ''.ts'' \<or> ends_with p ''.js'')"

definition cmdMigrate :: "env \<Rightarrow> string \<Rightarrow> unit io" where
  "cmdMigrate e newBaseDir =
     (if newBaseDir = [] \<or> list_all is_space newBaseDir then io_throw UsageError
      else (\<lambda>w.
        let cfg = (case readConfig w of None \<Rightarrow> DEFAULT_CFG | Some c \<Rightarrow> c);
            oldBase = baseDir cfg
        in if path_resolve (wd e) [oldBase] = path_resolve (wd e) [newBaseDir]
           then (Inr (), w)
           else
             io_bind (ensureDir (cwd_path e [newBaseDir])) (\<lambda>u1.
             io_bind (existsSync (cwd_path e [oldBase])) (\<lambda>ex.
             io_bind (if ex then walk_dir (cwd_path e [oldBase]) else io_return []) (\<lambda>listed.
             io_bind (copy_flat e newBaseDir (filter recognized listed)) (\<lambda>u2.
             writeConfig e (cfg\<lparr>baseDir := newBaseDir\<rparr>))))) w))"


section \<open>An example project\<close>

text \<open>
  A registry with the hook \<open>use-b\<close>, whose one file imports through the alias \<open>@/\<close>, and
  a project in \<open>/p\<close> that has \<open>use-a\<close> installed. The last line of its \<open>index.ts\<close> has no
  line break behind it.
\<close>

definition ex_registry :: registry where
  "ex_registry =
     \<lparr>baseUrl = ''https://r'', reg_version = Some ''7'',
      hooks = [\<lparr>hook_id = ''use-b'', hook_path = ''use-b''\<rparr>]\<rparr>"

definition ex_file :: file_desc where
  "ex_file = \<lparr>src_from = ''use-b.ts'', dest_to = ''hooks/use-b.ts''\<rparr>"

definition ex_meta :: hook_meta where
  "ex_meta =
     \<lparr>meta_id = ''use-b'', meta_name = ''useB'', meta_version = Some ''1.2.0'',
      meta_files = [ex_file]\<rparr>"

definition ex_source :: string where
  "ex_source =
     ''import { y } from '' @ [dq] @ ''@/lib/y'' @ [dq] @ '';'' @ [nl] @
     ''export const useB = y;'' @ [nl]"

definition ex_env :: env where
  "ex_env =
     \<lparr>wd = ''/p'',
      registry_json = Inr ex_registry,
      meta_json = (\<lambda>u. if u = ''https://r/use-b/meta.json'' then Inr ex_meta
                        else Inl (FetchError u)),
      raw_text = (\<lambda>u. if u = ''https://r/use-b/use-b.ts'' then Inr ex_source
                       else Inl (FetchError u)),
      regexp_exec = (\<lambda>source body. Inl (PatternError source))\<rparr>"

definition ex_config :: ProjectConfig where
  "ex_config =
     \<lparr>baseDir = ''src/hooks'', addIndex = True, stripUseClient = False,
      aliasPrefix = Some ''@/'', aliasTarget = Some ''src''\<rparr>"

definition ex_index :: string where
  "ex_index = ''export * from '' @ [dq] @ ''./use-a'' @ [dq] @ '';''"

definition ex_world :: world where
  "ex_world =
     \<lparr>files =
        [(''/p'', Dir), (''/p/src'', Dir), (''/p/src/hooks'', Dir),
         (''/p/src/hooks/use-a.ts'', File ''export const useA = 1;''),
         (''/p/src/hooks/index.ts'', File ex_index)],
      saved_config = Some ex_config\<rparr>"

text \<open>The same project with an older \<open>use-b.ts\<close> in place.\<close>

definition ex_world_b :: world where
  "ex_world_b =
     ex_world\<lparr>files := files ex_world @ [(''/p/src/hooks/use-b.ts'', File ''old text'')]\<rparr>"

definition ex_options :: options where
  "ex_options = \<lparr>dry = False, force = False, opt_stripUseClient = None\<rparr>"

text \<open>
  A second registry, whose hook \<open>use-dot\<close> has a file with a dot in its base name, and
  a project in which that hook and a hook \<open>useXb\<close> are installed.
\<close>

definition dot_registry :: registry where
  "dot_registry =
     \<lparr>baseUrl = ''https://r'', reg_version = Some ''7'',
      hooks = [\<lparr>hook_id = ''use-dot'', hook_path = ''use-dot''\<rparr>]\<rparr>"

definition dot_meta :: hook_meta where
  "dot_meta =
     \<lparr>meta_id = ''use-dot'', meta_name = ''useDot'', meta_version = Some ''1.0.0'',
      meta_files = [\<lparr>src_from = ''use.b.ts'', dest_to = ''hooks/use.b.ts''\<rparr>]\<rparr>"

definition dot_env :: env where
  "dot_env =
     \<lparr>wd = ''/p'',
      registry_json = Inr dot_registry,
      meta_json = (\<lambda>u. if u = ''https://r/use-dot/meta.json'' then Inr dot_meta
                        else Inl (FetchError u)),
      raw_text = (\<lambda>u. Inl (FetchError u)),
      regexp_exec = (\<lambda>source body. Inl (PatternError source))\<rparr>"

definition dot_world :: world where
  "dot_world =
     \<lparr>files =
        [(''/p'', Dir), (''/p/src'', Dir), (''/p/src/hooks'', Dir),
         (''/p/src/hooks/useXb.ts'', File ''export const useXb = 1;''),
         (''/p/src/hooks/use.b.ts'', File ''export const useDot = 1;''),
         (''/p/src/hooks/index.ts'', File (export_line ''useXb'' @ export_line ''use.b''))],
      saved_config = None\<rparr>"

text \<open>A project with one installed file, and one whose hook id has an underscore.\<close>

definition hdr_world :: world where
  "hdr_world =
     \<lparr>files = [(''/p/f.ts'', File (header_line ''use-b'' (Some ''1.2.0'') (Some ''7'') @ ex_source))],
      saved_config = None\<rparr>"

definition underscore_world :: world where
  "underscore_world =
     \<lparr>files = [(''/p/f.ts'', File (header_line ''use_b'' (Some ''1.2.0'') (Some ''7'') @ ex_source))],
      saved_config = None\<rparr>"

text \<open>A source text whose only import is relative, with the alias in a plain string.\<close>

definition rel_source :: string where
  "rel_source =
     ''import { y } from '' @ [dq] @ ''./lib/y'' @ [dq] @ '';'' @ [nl] @
     ''const note = '' @ [sq] @ ''see @/docs'' @ [sq] @ '';'' @ [nl]"

text \<open>A source text whose import has a backslash in its subpath.\<close>

definition bs_source :: string where
  "bs_source = ''import x from '' @ [dq] @ ''@/a'' @ [bslash] @ ''b'' @ [dq] @ '';''"

text \<open>
  A project whose hooks directory has a directory \<open>old\<close> in it, with an earlier
  \<open>use-a.ts\<close>.
\<close>

definition nest_world :: world where
  "nest_world =
     \<lparr>files =
        [(''/p'', Dir), (''/p/src'', Dir), (''/p/src/hooks'', Dir),
         (''/p/src/hooks/use-a.ts'', File ''export const useA = 2;''),
         (''/p/src/hooks/old'', Dir),
         (''/p/src/hooks/old/use-a.ts'', File ''export const useA = 1;'')],
      saved_config = Some ex_config\<rparr>"

text \<open>
  A project with two files of one base name below its hooks directory, and a project
  whose hooks directory is the working directory, with its configuration file.
\<close>

definition twin_world :: world where
  "twin_world =
     \<lparr>files =
        [(''/p'', Dir), (''/p/src'', Dir), (''/p/src/hooks'', Dir),
         (''/p/src/hooks/a'', Dir), (''/p/src/hooks/a/use-x.ts'', File ''export const useX = 1;''),
         (''/p/src/hooks/b'', Dir), (''/p/src/hooks/b/use-x.ts'', File ''export const useX = 2;'')],
      saved_config = Some ex_config\<rparr>"

definition root_config :: ProjectConfig where
  "root_config = ex_config\<lparr>baseDir := ''.''\<rparr>"

definition root_world :: world where
  "root_world =
     \<lparr>files =
        [(''/p'', Dir), (''/p/hooks.config.json'', File (config_json root_config @ [nl])),
         (''/p/use-a.ts'', File ''export const useA = 1;'')],
      saved_config = Some root_config\<rparr>"

text \<open>Two installs of one hook, one after the other.\<close>

definition install_twice :: "env \<Rightarrow> string \<Rightarrow> string \<Rightarrow> bool \<Rightarrow> options \<Rightarrow> unit io" where
  "install_twice e hookId base addIdx opts =
     io_bind (installHook e hookId base addIdx opts) (\<lambda>u. installHook e hookId base addIdx opts)"

text \<open>
  A project whose index ends with the export of \<open>use-b\<close> without a line break, and one
  whose index holds the export line of \<open>use-b\<close> twice.
\<close>

definition open_world :: world where
  "open_world =
     \<lparr>files =
        [(''/p'', Dir), (''/p/src'', Dir), (''/p/src/hooks'', Dir),
         (''/p/src/hooks/index.ts'', File (''export * from '' @ [dq] @ ''./use-b'' @ [dq] @ '';''))],
      saved_config = Some ex_config\<rparr>"

definition twice_world :: world where
  "twice_world =
     \<lparr>files =
        [(''/p'', Dir), (''/p/src'', Dir), (''/p/src/hooks'', Dir),
         (''/p/src/hooks/index.ts'',
          File (''export * from '' @ [dq] @ ''./use-b'' @ [dq] @ '';'' @ [nl] @
                ''export * from '' @ [dq] @ ''./use-b'' @ [dq] @ '';'' @ [nl]))],
      saved_config = Some ex_config\<rparr>"

text \<open>An import whose source is a string that holds an import through the alias.\<close>

definition nested_source :: string where
  "nested_source =
     ''import a from '' @ [dq] @ ''from '' @ [sq] @ ''@/x'' @ [sq] @ [dq] @ '';''"

(* ==== properties ==== *)

section \<open>Properties of cmpSemver\<close>

lemma split_on_ne: "split_on sep s \<noteq> []"
  by (induction s) (auto split: list.splits)

lemma split_on_append:
  "sep \<notin> set x \<Longrightarrow> split_on sep (x @ sep # r) = x # split_on sep r"
  by (induction x) (auto split: list.splits simp: split_on_ne)

lemma split_on_plain: "sep \<notin> set x \<Longrightarrow> split_on sep x = [x]"
  by (induction x) (auto split: list.splits)

lemma dot_not_digit: "\<not> is_digit (CHR ''.'')"
  by (simp add: is_digit_def ccode_def)

lemma digit_no_dot: "list_all is_digit x \<Longrightarrow> CHR ''.'' \<notin> set x"
  using dot_not_digit by (auto simp: list_all_iff)

lemma split_dotted:
  "ver_part x \<Longrightarrow> ver_part y \<Longrightarrow> ver_part z \<Longrightarrow>
   split_on (CHR ''.'') (dotted x y z) = [x, y, z]"
  by (simp add: dotted_def ver_part_def split_on_append split_on_plain digit_no_dot)

lemma to_number_part: "ver_part x \<Longrightarrow> to_number x = Some (dec x)"
  by (simp add: ver_part_def to_number_def)

lemma cmpSemver_dotted:
  "ver_part x \<Longrightarrow> ver_part y \<Longrightarrow> ver_part z \<Longrightarrow>
   ver_part x' \<Longrightarrow> ver_part y' \<Longrightarrow> ver_part z' \<Longrightarrow>
   cmpSemver (dotted x y z) (dotted x' y' z') =
     Some (if dec x \<noteq> dec x' then dec x - dec x'
           else if dec y \<noteq> dec y' then dec y - dec y'
           else dec z - dec z')"
  by (simp add: cmpSemver_def split_dotted part_or_zero_def to_number_part numeral_3_eq_3)

text \<open>
  Claim C9. For two versions \<open>x.y.z\<close> and \<open>x'.y'.z'\<close> whose components are runs of
  decimal digits (each at most \<open>2 ^ 53\<close>, where a double is exact), \<open>cmpSemver\<close> returns a
  number that is positive exactly when the first version is the greater one in the order
  major, then minor, then patch, zero exactly when the three components are equal as
  numbers, and negative exactly when the first version is the smaller one. In particular
  \<open>cmpSemver("1.2.0", "1.1.9") > 0\<close>, \<open>cmpSemver("1.0.0", "1.0.0") == 0\<close> and
  \<open>cmpSemver("0.9.0", "1.0.0") < 0\<close>.
\<close>

theorem cmpSemver_componentwise:
  assumes "ver_part x" and "ver_part y" and "ver_part z"
    and "ver_part x'" and "ver_part y'" and "ver_part z'"
  shows "(\<exists>d. cmpSemver (dotted x y z) (dotted x' y' z') = Some d \<and>
            (0 < d \<longleftrightarrow>
               dec x' < dec x \<or> (dec x = dec x' \<and>
                 (dec y' < dec y \<or> (dec y = dec y' \<and> dec z' < dec z)))) \<and>
            (d = 0 \<longleftrightarrow> dec x = dec x' \<and> dec y = dec y' \<and> dec z = dec z') \<and>
            (d < 0 \<longleftrightarrow>
               dec x < dec x' \<or> (dec x = dec x' \<and>
                 (dec y < dec y' \<or> (dec y = dec y' \<and> dec z < dec z'))))) \<and>
         (\<exists>d. cmpSemver ''1.2.0'' ''1.1.9'' = Some d \<and> 0 < d) \<and>
         cmpSemver ''1.0.0'' ''1.0.0'' = Some 0 \<and>
         (\<exists>d. cmpSemver ''0.9.0'' ''1.0.0'' = Some d \<and> d < 0)"
proof -
  have general: "\<exists>d. cmpSemver (dotted x y z) (dotted x' y' z') = Some d \<and>
            (0 < d \<longleftrightarrow>
               dec x' < dec x \<or> (dec x = dec x' \<and>
                 (dec y' < dec y \<or> (dec y = dec y' \<and> dec z' < dec z)))) \<and>
            (d = 0 \<longleftrightarrow> dec x = dec x' \<and> dec y = dec y' \<and> dec z = dec z') \<and>
            (d < 0 \<longleftrightarrow>
               dec x < dec x' \<or> (dec x = dec x' \<and>
                 (dec y < dec y' \<or> (dec y = dec y' \<and> dec z < dec z'))))"
    using assms by (simp add: cmpSemver_dotted)
  have e1: "cmpSemver ''1.2.0'' ''1.1.9'' = Some 1" by code_simp
  have e2: "cmpSemver ''1.0.0'' ''1.0.0'' = Some 0" by code_simp
  have e3: "cmpSemver ''0.9.0'' ''1.0.0'' = Some (- 1)" by code_simp
  from general e1 e2 e3 show ?thesis by simp
qed

theorem cmpSemver_componentwise_witness:
  "ver_part ''1'' \<and> ver_part ''12'' \<and> ver_part ''0'' \<and> ver_part ''9'' \<and>
   (\<exists>d. cmpSemver ''1.12.0'' ''1.9.9'' = Some d \<and> 0 < d)"
proof -
  have p1: "ver_part ''1''" by code_simp
  have p12: "ver_part ''12''" by code_simp
  have p0: "ver_part ''0''" by code_simp
  have p9: "ver_part ''9''" by code_simp
  have d12: "dec ''12'' = 12" by code_simp
  have d9: "dec ''9'' = 9" by code_simp
  have s1: "dotted ''1'' ''12'' ''0'' = ''1.12.0''" by (simp add: dotted_def)
  have s2: "dotted ''1'' ''9'' ''9'' = ''1.9.9''" by (simp add: dotted_def)
  from cmpSemver_componentwise [OF p1 p12 p0 p1 p9 p9]
  obtain d where "cmpSemver (dotted ''1'' ''12'' ''0'') (dotted ''1'' ''9'' ''9'') = Some d"
    and "0 < d \<longleftrightarrow> dec ''1'' < dec ''1'' \<or> (dec ''1'' = dec ''1'' \<and>
                 (dec ''9'' < dec ''12'' \<or> (dec ''12'' = dec ''9'' \<and> dec ''9'' < dec ''0'')))"
    by blast
  then have "cmpSemver ''1.12.0'' ''1.9.9'' = Some d \<and> 0 < d"
    by (simp add: s1 s2 d12 d9)
  with p1 p12 p0 p9 show ?thesis by blast
qed


section \<open>Steps of a command\<close>

lemma io_return_apply [simp]: "io_return x w = (Inr x, w)"
  by (simp add: io_return_def)

lemma io_throw_apply [simp]: "io_throw e w = (Inl e, w)"
  by (simp add: io_throw_def)

lemma io_lift_simps [simp]: "io_lift (Inl e) = io_throw e" "io_lift (Inr x) = io_return x"
  by (simp_all add: io_lift_def)

lemma io_bind_apply:
  "io_bind m f w = (case m w of (Inl e, w') \<Rightarrow> (Inl e, w') | (Inr x, w') \<Rightarrow> f x w')"
  by (simp add: io_bind_def)

lemma io_bind_return [simp]: "io_bind (io_return x) f = f x"
  by (simp add: io_bind_def io_return_def)

lemma io_bind_throw [simp]: "io_bind (io_throw e) f = io_throw e"
  by (auto simp: io_bind_def io_throw_def)

lemma io_bind_Inr: "m w = (Inr x, w') \<Longrightarrow> io_bind m f w = f x w'"
  by (simp add: io_bind_def)

lemma io_bind_Inl: "m w = (Inl e, w') \<Longrightarrow> io_bind m f w = (Inl e, w')"
  by (simp add: io_bind_def)

section \<open>A dry run writes nothing\<close>

lemma install_file_dry:
  "dry opts \<Longrightarrow>
   install_file e reg entry meta cfg sc base opts f = io_return (fileBaseName (dest_of e base f))"
  by (simp add: install_file_def Let_def)

lemma install_files_dry:
  "dry opts \<Longrightarrow>
   \<exists>r. install_files e reg entry meta cfg sc base opts fs lastn = io_return r"
  by (induction fs arbitrary: lastn) (auto simp: install_file_dry)

lemma update_index_dry: "dry opts \<Longrightarrow> update_index e base opts n = io_return ()"
  by (simp add: update_index_def Let_def)

text \<open>
  Claim C10. For every hook, every registry and every state, \<open>installHook\<close> with
  \<open>dry = true\<close> leaves the whole state as it was: no file or directory is created,
  overwritten or removed, and no backup or index file is written. This holds whether the
  run ends normally or with an error.
\<close>

theorem installHook_dry_run:
  "dry opts \<Longrightarrow> snd (installHook e hookId base addIdx opts w) = w"
proof -
  assume d: "dry opts"
  show ?thesis
  proof (cases "registry_json e")
    case (Inl err)
    then show ?thesis by (simp add: installHook_def)
  next
    case (Inr reg)
    show ?thesis
    proof (cases "find_hook reg hookId")
      case None
      with Inr show ?thesis by (simp add: installHook_def)
    next
      case (Some entry)
      show ?thesis
      proof (cases "meta_json e (meta_url reg entry)")
        case (Inl err)
        with Inr Some show ?thesis by (simp add: installHook_def)
      next
        case meta: (Inr meta)
        obtain cfg where cfg: "cfg = (case readConfig w of None \<Rightarrow> DEFAULT_CFG | Some c \<Rightarrow> c)"
          by simp
        obtain sc where
          sc: "sc = (case opt_stripUseClient opts of None \<Rightarrow> stripUseClient cfg | Some b \<Rightarrow> b)"
          by simp
        from install_files_dry [OF d] obtain r where
          r: "install_files e reg entry meta cfg sc base opts (meta_files meta) None = io_return r"
          by blast
        from Inr Some meta cfg sc r d show ?thesis
          by (simp add: installHook_def io_bind_apply update_index_dry
                split: option.splits)
      qed
    qed
  qed
qed

theorem installHook_dry_run_witness:
  "dry (ex_options\<lparr>dry := True\<rparr>) \<and>
   installHook ex_env ''use-b'' ''src/hooks'' True (ex_options\<lparr>dry := True\<rparr>) ex_world
     = (Inr (), ex_world)"
proof -
  have d: "dry (ex_options\<lparr>dry := True\<rparr>)" by simp
  have r: "fst (installHook ex_env ''use-b'' ''src/hooks'' True (ex_options\<lparr>dry := True\<rparr>)
                 ex_world) = Inr ()"
    by code_simp
  from installHook_dry_run [OF d, of ex_env "''use-b''" "''src/hooks''" True ex_world] r d
  show ?thesis by (simp add: prod_eq_iff)
qed

section \<open>A hook that the registry does not list\<close>

text \<open>
  Claim C6. When the registry was fetched and does not list the hook id, \<open>installHook\<close>
  (install), \<open>cmdUpdate\<close> (update), \<open>cmdRemove\<close> (remove) and \<open>cmdAdd\<close> with that id end
  with the error "Unknown hook" for that id, and the state they leave is the state they
  started from: no destination file, backup or index file is created, changed or removed.
\<close>

theorem unknown_hook_no_io:
  assumes "registry_json e = Inr reg" and "hookId \<notin> hook_id ` set (hooks reg)"
  shows "installHook e hookId base addIdx opts w = (Inl (UnknownHook hookId), w) \<and>
         cmdUpdate e hookId o_base o_idx o_dry o_force w = (Inl (UnknownHook hookId), w) \<and>
         cmdRemove e hookId o_base w = (Inl (UnknownHook hookId), w) \<and>
         (hookId \<noteq> [] \<longrightarrow>
            cmdAdd e (Some hookId) answer o_base o_idx w = (Inl (UnknownHook hookId), w))"
proof -
  from assms(2) have nf: "find_hook reg hookId = None"
    by (auto simp: find_hook_def find_None_iff)
  have i: "\<And>b a opts. installHook e hookId b a opts w = (Inl (UnknownHook hookId), w)"
    using assms(1) nf by (simp add: installHook_def)
  have r: "cmdRemove e hookId o_base w = (Inl (UnknownHook hookId), w)"
    using assms(1) nf by (simp add: cmdRemove_def Let_def)
  have a: "hookId \<noteq> [] \<longrightarrow>
            cmdAdd e (Some hookId) answer o_base o_idx w = (Inl (UnknownHook hookId), w)"
    using assms(1) i by (simp add: cmdAdd_def Let_def)
  from i r a show ?thesis by (simp add: cmdUpdate_def Let_def)
qed

theorem unknown_hook_no_io_witness:
  "registry_json ex_env = Inr ex_registry \<and>
   ''use-zz'' \<notin> hook_id ` set (hooks ex_registry) \<and>
   installHook ex_env ''use-zz'' ''src/hooks'' True ex_options ex_world
     = (Inl (UnknownHook ''use-zz''), ex_world) \<and>
   cmdUpdate ex_env ''use-zz'' None None False False ex_world
     = (Inl (UnknownHook ''use-zz''), ex_world) \<and>
   cmdRemove ex_env ''use-zz'' None ex_world = (Inl (UnknownHook ''use-zz''), ex_world) \<and>
   cmdAdd ex_env (Some ''use-zz'') None None None ex_world
     = (Inl (UnknownHook ''use-zz''), ex_world)"
proof -
  have r: "registry_json ex_env = Inr ex_registry" by (simp add: ex_env_def)
  have n: "''use-zz'' \<notin> hook_id ` set (hooks ex_registry)" by (simp add: ex_registry_def)
  from unknown_hook_no_io [OF r n, where base = "''src/hooks''" and addIdx = True
      and opts = ex_options and w = ex_world and o_base = None and o_idx = None
      and o_dry = False and o_force = False and answer = None] r n
  show ?thesis by simp
qed

section \<open>Files and directories\<close>

lemma lookup_update:
  "lookup (AList.update p n fs) q =
     (if q = ''/'' then Some Dir else if q = p then Some n else lookup fs q)"
  by (simp add: lookup_def update_conv')

lemma lookup_delete:
  "lookup (AList.delete p fs) q =
     (if q = ''/'' then Some Dir else if q = p then None else lookup fs q)"
  by (simp add: lookup_def delete_conv')

lemma lookup_mkdirs:
  "lookup (foldr (\<lambda>p fs. AList.update p Dir fs) chain fs) q =
     (if q \<in> set chain then Some Dir else lookup fs q)"
proof (induction chain)
  case Nil
  then show ?case by simp
next
  case (Cons a chain)
  then show ?case by (simp add: lookup_update) (simp add: lookup_def)
qed

lemma dirname_end_le: "dirname_end xs b = Some e \<Longrightarrow> e \<le> length xs"
proof (induction xs arbitrary: b)
  case Nil
  then show ?case by simp
next
  case (Cons c cs)
  then show ?case by (fastforce split: if_splits)
qed

lemma dirname_end_pos: "dirname_end xs b = Some e \<Longrightarrow> 0 < e"
proof (induction xs arbitrary: b)
  case Nil
  then show ?case by simp
next
  case (Cons c cs)
  then show ?case by (fastforce split: if_splits)
qed

lemma path_dirname_ne: "path_dirname p \<noteq> []"
  by (auto simp: path_dirname_def split: option.splits dest: dirname_end_pos)

lemma path_dirname_length: "p \<noteq> [] \<Longrightarrow> length (path_dirname p) \<le> length p"
  by (cases p) (auto simp: path_dirname_def split: option.splits dest: dirname_end_le)

lemma up_chain_length:
  "p \<noteq> [] \<Longrightarrow> q \<in> set (up_chain n p) \<Longrightarrow> length q \<le> length p"
proof (induction n arbitrary: p)
  case 0
  then show ?case by simp
next
  case (Suc n)
  show ?case
  proof (cases "q = p")
    case True
    then show ?thesis by simp
  next
    case False
    with Suc.prems have "q \<in> set (up_chain n (path_dirname p))"
      by (auto split: if_splits)
    then have "length q \<le> length (path_dirname p)"
      using Suc.IH path_dirname_ne by blast
    with Suc.prems(1) show ?thesis
      using path_dirname_length [of p] by simp
  qed
qed

lemma ensureDir_Inr:
  "ensureDir d w = (Inr u, w') \<Longrightarrow>
   saved_config w' = saved_config w \<and>
   (\<forall>q. lookup (files w') q =
      (if q \<in> set (up_chain (Suc (length d)) d) then Some Dir else lookup (files w) q)) \<and>
   (\<forall>q \<in> set (up_chain (Suc (length d)) d). \<not> is_file (lookup (files w) q))"
  by (auto simp: ensureDir_def Let_def lookup_mkdirs list_ex_iff simp del: up_chain.simps
        split: if_splits)

lemma ensureDir_keeps_file:
  "ensureDir d w = (Inr u, w') \<Longrightarrow> lookup (files w) q = Some (File c) \<Longrightarrow>
   lookup (files w') q = Some (File c)"
  by (drule ensureDir_Inr) (auto simp: is_file_def simp del: up_chain.simps)

lemma ensureDir_keeps_long:
  assumes "ensureDir (path_dirname p) w = (Inr u, w')" and "Suc (length p) < length q"
  shows "lookup (files w') q = lookup (files w) q"
proof -
  have "q \<notin> set (up_chain (Suc (length (path_dirname p))) (path_dirname p))"
  proof
    assume "q \<in> set (up_chain (Suc (length (path_dirname p))) (path_dirname p))"
    then have "length q \<le> length (path_dirname p)"
      using up_chain_length path_dirname_ne by blast
    moreover have "length (path_dirname p) \<le> max 1 (length p)"
      using path_dirname_length [of p] by (cases "p = []") (simp_all add: path_dirname_def)
    ultimately show False using assms(2) by simp
  qed
  with ensureDir_Inr [OF assms(1)] show ?thesis by (simp del: up_chain.simps)
qed

lemma writeFile_Inr:
  "writeFile p c w = (Inr u, w') \<Longrightarrow>
   w' = w\<lparr>files := AList.update p (File c) (files w)\<rparr> \<and> p \<noteq> ''/''"
  by (auto simp: writeFile_def lookup_def split: option.splits node.splits if_splits)

lemma writeFile_lookup:
  "writeFile p c w = (Inr u, w') \<Longrightarrow>
   lookup (files w') q = (if q = p then Some (File c) else lookup (files w) q)"
  by (drule writeFile_Inr) (auto simp: lookup_update lookup_def update_conv')

lemma backupFile_file:
  assumes "lookup (files w) p = Some (File old)"
    and "backupFile p w = (Inr r, w')"
  shows "r = Some (p @ ''.bak'') \<and> writeFile (p @ ''.bak'') old w = (Inr (), w')"
  using assms
  by (auto simp: backupFile_def existsSync_def copyFile_def readFile_def io_bind_apply
           split: prod.splits sum.splits)


section \<open>The backup of a file that is overwritten\<close>

text \<open>
  Claim C4. One pass of the loop of \<open>installHook\<close>, not a dry run, for a file whose
  destination holds a regular file with the text \<open>old\<close>, when the pass ends normally.
  Without \<open>force\<close>, \<open>backupFile\<close> writes \<open>old\<close> to the destination path followed by
  \<open>.bak\<close> in a state in which the destination still holds \<open>old\<close>, and only then the
  destination is overwritten; the \<open>.bak\<close> file holds \<open>old\<close> at the end. With \<open>force\<close>
  no backup is made: what the \<open>.bak\<close> path holds is what it held before, and the
  destination is overwritten. In both cases the destination ends with the header line
  followed by the rewritten text that was fetched.
\<close>

theorem backup_before_overwrite:
  assumes nd: "\<not> dry opts"
    and ex: "lookup (files w) (dest_of e base f) = Some (File old)"
    and ok: "install_file e reg entry meta cfg sc base opts f w = (Inr name, w')"
  shows "\<exists>fetched w1 w2.
           raw_text e (baseUrl reg @ ''/'' @ hook_path entry @ ''/'' @ src_from f) = Inr fetched \<and>
           ensureDir (path_dirname (dest_of e base f)) w = (Inr (), w1) \<and>
           (if force opts then w2 = w1
            else backupFile (dest_of e base f) w1 = (Inr (Some (dest_of e base f @ ''.bak'')), w2) \<and>
                 lookup (files w2) (dest_of e base f @ ''.bak'') = Some (File old)) \<and>
           lookup (files w2) (dest_of e base f) = Some (File old) \<and>
           writeFile (dest_of e base f)
             (header_line (meta_id meta) (meta_version meta) (reg_version reg) @
              rewriteAliasImports (wd e) (if sc then removeUseClient fetched else fetched)
                (aliasPrefix cfg) (aliasTarget cfg) (dest_of e base f) (wd e)) w2 = (Inr (), w') \<and>
           lookup (files w') (dest_of e base f) =
             Some (File (header_line (meta_id meta) (meta_version meta) (reg_version reg) @
               rewriteAliasImports (wd e) (if sc then removeUseClient fetched else fetched)
                 (aliasPrefix cfg) (aliasTarget cfg) (dest_of e base f) (wd e))) \<and>
           lookup (files w') (dest_of e base f @ ''.bak'') =
             (if force opts then lookup (files w) (dest_of e base f @ ''.bak'')
              else Some (File old))"
proof -
  let ?dest = "dest_of e base f"
  let ?src = "baseUrl reg @ ''/'' @ hook_path entry @ ''/'' @ src_from f"
  obtain fetched where fe: "raw_text e ?src = Inr fetched"
    using ok nd by (cases "raw_text e ?src") (auto simp: install_file_def Let_def)
  let ?content = "header_line (meta_id meta) (meta_version meta) (reg_version reg) @
     rewriteAliasImports (wd e) (if sc then removeUseClient fetched else fetched)
       (aliasPrefix cfg) (aliasTarget cfg) ?dest (wd e)"
  obtain r1 w1 where e1: "ensureDir (path_dirname ?dest) w = (r1, w1)"
    by (cases "ensureDir (path_dirname ?dest) w")
  have step: "install_file e reg entry meta cfg sc base opts f w =
      io_bind (ensureDir (path_dirname ?dest)) (\<lambda>u1.
        io_bind (existsSync ?dest) (\<lambda>ex.
        io_bind (if ex \<and> \<not> force opts then backupFile ?dest else io_return None) (\<lambda>bak.
        io_bind (writeFile ?dest ?content) (\<lambda>u2. io_return (fileBaseName ?dest))))) w"
    using nd fe by (simp add: install_file_def Let_def)
  from ok step e1 have r1: "r1 = Inr ()"
    by (cases r1) (auto simp: io_bind_apply)
  with e1 have e1': "ensureDir (path_dirname ?dest) w = (Inr (), w1)" by simp
  have old1: "lookup (files w1) ?dest = Some (File old)"
    using ensureDir_keeps_file [OF e1'] ex by simp
  have bak1: "lookup (files w1) (?dest @ ''.bak'') = lookup (files w) (?dest @ ''.bak'')"
    using ensureDir_keeps_long [OF e1'] by simp
  have ex1: "existsSync ?dest w1 = (Inr True, w1)"
    using old1 by (simp add: existsSync_def)
  show ?thesis
  proof (cases "force opts")
    case True
    from ok step e1' ex1 True have wr: "writeFile ?dest ?content w1 = (Inr (), w')"
      by (auto simp: io_bind_apply split: prod.splits sum.splits)
    from writeFile_lookup [OF wr] have
      "lookup (files w') ?dest = Some (File ?content)"
      "lookup (files w') (?dest @ ''.bak'') = lookup (files w1) (?dest @ ''.bak'')"
      by simp_all
    with True fe e1' old1 wr bak1 show ?thesis
      by (intro exI [of _ fetched] exI [of _ w1]) simp
  next
    case False
    obtain rb w2 where b: "backupFile ?dest w1 = (rb, w2)" by (cases "backupFile ?dest w1")
    from ok step e1' ex1 False b obtain bk where rb: "rb = Inr bk"
      by (cases rb) (auto simp: io_bind_apply)
    from backupFile_file [OF old1 b [unfolded rb]] have
      bk: "bk = Some (?dest @ ''.bak'')" and wb: "writeFile (?dest @ ''.bak'') old w1 = (Inr (), w2)"
      by simp_all
    from writeFile_lookup [OF wb] old1 have
      l2: "lookup (files w2) (?dest @ ''.bak'') = Some (File old)"
          "lookup (files w2) ?dest = Some (File old)"
      by simp_all
    from ok step e1' ex1 False b rb have wr: "writeFile ?dest ?content w2 = (Inr (), w')"
      by (auto simp: io_bind_apply split: prod.splits sum.splits)
    from writeFile_lookup [OF wr] l2 have
      "lookup (files w') ?dest = Some (File ?content)"
      "lookup (files w') (?dest @ ''.bak'') = Some (File old)"
      by simp_all
    with False fe e1' b rb bk l2 wr show ?thesis
      by (intro exI [of _ fetched] exI [of _ w1] exI [of _ w2]) simp
  qed
qed

theorem backup_before_overwrite_witness:
  "\<not> dry ex_options \<and>
   lookup (files ex_world_b) (dest_of ex_env ''src/hooks'' ex_file) = Some (File ''old text'') \<and>
   fst (install_file ex_env ex_registry (hd (hooks ex_registry)) ex_meta ex_config False
          ''src/hooks'' ex_options ex_file ex_world_b) = Inr ''use-b'' \<and>
   lookup (files (snd (install_file ex_env ex_registry (hd (hooks ex_registry)) ex_meta
          ex_config False ''src/hooks'' ex_options ex_file ex_world_b)))
      ''/p/src/hooks/use-b.ts.bak'' = Some (File ''old text'')"
proof -
  let ?run = "install_file ex_env ex_registry (hd (hooks ex_registry)) ex_meta ex_config False
          ''src/hooks'' ex_options ex_file ex_world_b"
  have nd: "\<not> dry ex_options" by (simp add: ex_options_def)
  have nf: "\<not> force ex_options" by (simp add: ex_options_def)
  have d: "dest_of ex_env ''src/hooks'' ex_file = ''/p/src/hooks/use-b.ts''" by code_simp
  have ex: "lookup (files ex_world_b) (dest_of ex_env ''src/hooks'' ex_file)
              = Some (File ''old text'')"
    by code_simp
  have r: "fst ?run = Inr ''use-b''" by code_simp
  then have ok: "?run = (Inr ''use-b'', snd ?run)" by (simp add: prod_eq_iff)
  from backup_before_overwrite [OF nd ex ok] nf
  have "lookup (files (snd ?run)) (dest_of ex_env ''src/hooks'' ex_file @ ''.bak'')
          = Some (File ''old text'')"
    by auto
  with nd ex r d show ?thesis by simp
qed

section \<open>The export line of the index\<close>

lemma includes_occurrences: "str_includes s sub \<longleftrightarrow> 0 < occurrences s sub"
  by (induction s) auto

lemma starts_with_append_same: "starts_with (s @ t) s"
  by (simp add: starts_with_def)

lemma starts_with_self: "starts_with s s"
  by (simp add: starts_with_def)

lemma includes_self: "str_includes s s"
  by (cases s) (simp_all add: starts_with_self)

lemma includes_append_right: "str_includes (c @ sub) sub"
  by (induction c) (auto simp: includes_self)

lemma starts_with_long:
  "length sub \<le> length s \<Longrightarrow> starts_with (s @ t) sub \<longleftrightarrow> starts_with s sub"
  by (simp add: starts_with_def)

lemma export_line_last: "nl \<notin> set name \<Longrightarrow> \<exists>b. export_line name = b @ [nl] \<and> nl \<notin> set b"
  by (rule exI [of _ "''export * from '' @ [dq] @ ''./'' @ name @ [dq] @ '';''"])
     (simp add: export_line_def)

lemma no_straddle:
  assumes sub: "sub = b @ [x]" and nb: "x \<notin> set b"
    and ne: "s \<noteq> []" and short: "length s < length sub"
  shows "\<not> starts_with (s @ sub) sub"
proof
  assume "starts_with (s @ sub) sub"
  then have eq: "s @ take (length sub - length s) sub = sub"
    using short by (simp add: starts_with_def)
  define k where "k = length sub - length s"
  from ne have pos: "0 < length s" by simp
  have k: "0 < k" "k < length sub" "length s + k = length sub"
    using short pos unfolding k_def by linarith+
  have "sub ! (length sub - 1) = x" using sub by simp
  moreover have "(s @ take k sub) ! (length sub - 1) = sub ! (k - 1)"
  proof -
    have i: "length sub - 1 = length s + (k - 1)" using k by linarith
    have "(s @ take k sub) ! (length s + (k - 1)) = take k sub ! (k - 1)"
      by (rule nth_append_length_plus)
    also have "\<dots> = sub ! (k - 1)" using k by simp
    finally show ?thesis using i by simp
  qed
  moreover have kb: "k - 1 < length b" using sub k by simp
  moreover have "sub ! (k - 1) = b ! (k - 1)" using sub kb by (simp add: nth_append)
  ultimately have "x = b ! (k - 1) \<and> k - 1 < length b" using eq k_def by simp
  then have "x \<in> set b" by (metis nth_mem)
  with nb show False by simp
qed

lemma occurrences_short: "length t < length sub \<Longrightarrow> occurrences t sub = 0"
  by (induction t) (auto simp: starts_with_def)

lemma occurrences_self:
  assumes "sub = b @ [x]"
  shows "occurrences sub sub = 1"
proof -
  from assms have "sub \<noteq> []" by simp
  then obtain a t where c: "sub = a # t" by (cases sub) simp_all
  then have "length t < length sub" by simp
  from occurrences_short [OF this] c starts_with_self [of sub] show ?thesis by simp
qed

lemma occurrences_append_new:
  assumes sub: "sub = b @ [x]" and nb: "x \<notin> set b"
  shows "occurrences (c @ sub) sub = occurrences c sub + 1"
proof (induction c)
  case Nil
  from sub have "sub \<noteq> []" by simp
  then show ?case using occurrences_self [OF sub] by simp
next
  case (Cons a c)
  have "starts_with ((a # c) @ sub) sub \<longleftrightarrow> starts_with (a # c) sub"
  proof (cases "length sub \<le> length (a # c)")
    case True
    from starts_with_long [OF this] show ?thesis .
  next
    case False
    then have short: "length (a # c) < length sub" by simp
    from no_straddle [OF sub nb _ short] have "\<not> starts_with ((a # c) @ sub) sub" by simp
    moreover have "\<not> starts_with (a # c) sub" using short by (auto simp: starts_with_def)
    ultimately show ?thesis by simp
  qed
  with Cons show ?case by simp
qed

lemma readFile_file: "lookup (files w) p = Some (File c) \<Longrightarrow> readFile p w = (Inr c, w)"
  by (simp add: readFile_def)




section \<open>Install, then remove\<close>

text \<open>
  Claim C3, on two inputs. In the example project the last line of \<open>index.ts\<close> has no
  line break behind it, so the install of \<open>use-b\<close> appends its export line to that line.
  The pattern of \<open>cmdRemove\<close> matches at the start of a line only: after the install and
  the removal of \<open>use-b\<close> the file \<open>use-b.ts\<close> is gone, and the index still holds the
  export line of \<open>use-b\<close>. In the second project the base name \<open>use.b\<close> goes into the
  pattern unescaped, its dot matches the \<open>X\<close> of \<open>useXb\<close>, and the removal of
  \<open>use-dot\<close> deletes the export line of \<open>useXb\<close> and keeps its own.
\<close>

theorem remove_keeps_or_takes_wrong_line:
  "io_bind (installHook ex_env ''use-b'' ''src/hooks'' True ex_options)
     (\<lambda>u. cmdRemove ex_env ''use-b'' (Some ''src/hooks'')) ex_world
   = (Inr (),
      \<lparr>files =
         [(''/p'', Dir), (''/p/src'', Dir), (''/p/src/hooks'', Dir),
          (''/p/src/hooks/use-a.ts'', File ''export const useA = 1;''),
          (''/p/src/hooks/index.ts'', File (ex_index @ export_line ''use-b''))],
       saved_config = Some ex_config\<rparr>) \<and>
   cmdRemove dot_env ''use-dot'' None dot_world
   = (Inr (),
      \<lparr>files =
         [(''/p'', Dir), (''/p/src'', Dir), (''/p/src/hooks'', Dir),
          (''/p/src/hooks/useXb.ts'', File ''export const useXb = 1;''),
          (''/p/src/hooks/index.ts'', File (export_line ''use.b''))],
       saved_config = None\<rparr>)"
proof -
  have a: "io_bind (installHook ex_env ''use-b'' ''src/hooks'' True ex_options)
     (\<lambda>u. cmdRemove ex_env ''use-b'' (Some ''src/hooks'')) ex_world
   = (Inr (),
      \<lparr>files =
         [(''/p'', Dir), (''/p/src'', Dir), (''/p/src/hooks'', Dir),
          (''/p/src/hooks/use-a.ts'', File ''export const useA = 1;''),
          (''/p/src/hooks/index.ts'', File (ex_index @ export_line ''use-b''))],
       saved_config = Some ex_config\<rparr>)"
    by code_simp
  have b: "cmdRemove dot_env ''use-dot'' None dot_world
   = (Inr (),
      \<lparr>files =
         [(''/p'', Dir), (''/p/src'', Dir), (''/p/src/hooks'', Dir),
          (''/p/src/hooks/useXb.ts'', File ''export const useXb = 1;''),
          (''/p/src/hooks/index.ts'', File (export_line ''use.b''))],
       saved_config = None\<rparr>)"
    by code_simp
  from a b show ?thesis by (rule conjI)
qed

section \<open>Matching\<close>

lemma many_all:
  "list_all p w \<Longrightarrow> (r = [] \<or> \<not> p (hd r)) \<Longrightarrow>
   \<exists>t. many p pre (w @ r) cs = (rev w @ pre, r, cs) # t"
proof (induction w arbitrary: pre)
  case Nil
  then show ?case by (cases r) auto
next
  case (Cons a w)
  from Cons.prems have "list_all p w" "p a" by simp_all
  from Cons.IH [OF this(1) Cons.prems(2), of "a # pre"] this(2) show ?case by auto
qed

lemma rmatch_Cat_first:
  "rmatch a st = x # t \<Longrightarrow> rmatch b x = y # t' \<Longrightarrow> \<exists>t''. rmatch (Cat a b) st = y # t''"
  by simp

lemma rmatch_Cat_skip:
  "rmatch a st = [] \<Longrightarrow> rmatch (Cat a b) st = []"
  by simp

lemma rmatch_atom_hit: "p c \<Longrightarrow> rmatch (Atom p) (pre, c # r, cs) = [(c # pre, r, cs)]"
  by simp

lemma rmatch_lit:
  "rmatch (lit s) (pre, s @ r, cs) = [(rev s @ pre, r, cs)]"
  by (induction s arbitrary: pre) (simp_all add: lit_def seq_def)

lemma rmatch_plus:
  assumes "w \<noteq> []" "list_all p w" "r = [] \<or> \<not> p (hd r)"
  shows "\<exists>t. rmatch (plus p) (pre, w @ r, cs) = (rev w @ pre, r, cs) # t"
proof -
  from assms(1) obtain a v where w: "w = a # v" by (cases w) auto
  with assms(2) have "p a" "list_all p v" by simp_all
  from many_all [OF this(2) assms(3), of "a # pre" cs] this(1) w show ?thesis
    by (auto simp: plus_def)
qed

lemma rmatch_Grp:
  "rmatch a (pre, rest, cs) = (pre', rest', cs') # t \<Longrightarrow>
   \<exists>t'. rmatch (Grp n a) (pre, rest, cs) =
     (pre', rest', (n, take (length rest - length rest') rest) # cs') # t'"
  by simp


lemma rmatch_lit_ci:
  "rmatch (lit_ci s) (pre, x, cs) =
     (if length s \<le> length x \<and> map to_lower (take (length s) x) = map to_lower s
      then [(rev (take (length s) x) @ pre, drop (length s) x, cs)] else [])"
proof (induction s arbitrary: pre x)
  case Nil
  then show ?case by (simp add: lit_ci_def seq_def)
next
  case (Cons a s)
  have unf: "rmatch (lit_ci (a # s)) st =
      concat (map (rmatch (lit_ci s)) (rmatch (Atom (\<lambda>d. to_lower d = to_lower a)) st))" for st
    by (simp add: lit_ci_def seq_def)
  show ?case
  proof (cases x)
    case Nil
    then show ?thesis by (simp add: unf)
  next
    case (Cons c r)
    then show ?thesis using Cons.IH [of "c # pre" r] by (auto simp: unf)
  qed
qed

lemma hook_rx_unfold:
  "rmatch hook_rx st =
     concat (map (rmatch (seq [Grp 1 (plus is_id_char), lit_ci ''@'',
          Grp 2 (seq [plus is_digit, lit ''.'', plus is_digit, lit ''.'', plus is_digit])]))
       (rmatch (lit_ci ''hook:'') st))"
  by (simp add: hook_rx_def seq_def)

lemma to_lower_simps:
  "to_lower (CHR ''h'') = CHR ''h''" "to_lower (CHR ''o'') = CHR ''o''"
  "to_lower (CHR ''k'') = CHR ''k''" "to_lower (CHR '':'') = CHR '':''"
  "to_lower (CHR ''@'') = CHR ''@''"
  by (simp_all add: to_lower_def is_upper_def ccode_def)

lemma hook_rx_miss:
  "rmatch (lit_ci ''hook:'') (pre, x, cs) = [] \<Longrightarrow> rmatch hook_rx (pre, x, cs) = []"
  by (simp add: hook_rx_unfold)

lemma exec_from_skip:
  "rmatch r (pre, c # t, []) = [] \<Longrightarrow> exec_from r pre (c # t) = exec_from r (c # pre) t"
  by simp

lemma lit_ci_hook_miss:
  "to_lower c \<noteq> CHR ''h'' \<Longrightarrow> rmatch (lit_ci ''hook:'') (pre, c # t, cs) = []"
  by (simp add: lit_ci_def seq_def to_lower_simps)

lemma lit_ci_hooks_miss:
  "rmatch (lit_ci ''hook:'') (pre, ''hooks'' @ t, cs) = []"
  by (simp add: lit_ci_def seq_def to_lower_def is_upper_def ccode_def)

lemma skip_banner:
  "exec_from hook_rx pre (''/* Installed via wkkkis-hooks | '' @ ''hook:'' @ y) =
   exec_from hook_rx (rev ''/* Installed via wkkkis-hooks | '' @ pre) (''hook:'' @ y)"
proof -
  have s1: "exec_from hook_rx p (c # t) = exec_from hook_rx (c # p) t"
    if "to_lower c \<noteq> CHR ''h''" for p c t
    using that by (simp add: hook_rx_miss lit_ci_hook_miss del: exec_from.simps add: exec_from_skip)
  have s2: "exec_from hook_rx p (''hooks'' @ t) = exec_from hook_rx (CHR ''h'' # p) (''ooks'' @ t)"
    for p t
    using hook_rx_miss [OF lit_ci_hooks_miss, of p t "[]"] by simp
  have lows: "to_lower (CHR ''/'') \<noteq> CHR ''h''" "to_lower (CHR ''*'') \<noteq> CHR ''h''"
    "to_lower (CHR '' '') \<noteq> CHR ''h''" "to_lower (CHR ''I'') \<noteq> CHR ''h''"
    "to_lower (CHR ''n'') \<noteq> CHR ''h''" "to_lower (CHR ''s'') \<noteq> CHR ''h''"
    "to_lower (CHR ''t'') \<noteq> CHR ''h''" "to_lower (CHR ''a'') \<noteq> CHR ''h''"
    "to_lower (CHR ''l'') \<noteq> CHR ''h''" "to_lower (CHR ''e'') \<noteq> CHR ''h''"
    "to_lower (CHR ''d'') \<noteq> CHR ''h''" "to_lower (CHR ''v'') \<noteq> CHR ''h''"
    "to_lower (CHR ''i'') \<noteq> CHR ''h''" "to_lower (CHR ''w'') \<noteq> CHR ''h''"
    "to_lower (CHR ''k'') \<noteq> CHR ''h''" "to_lower (CHR ''-'') \<noteq> CHR ''h''"
    "to_lower (CHR ''o'') \<noteq> CHR ''h''" "to_lower (CHR ''|'') \<noteq> CHR ''h''"
    by code_simp+
  have "exec_from hook_rx pre (''/* Installed via wkkkis-'' @ ''hooks'' @ '' | hook:'' @ y) =
        exec_from hook_rx (rev ''/* Installed via wkkkis-'' @ pre) (''hooks'' @ '' | hook:'' @ y)"
    by (simp add: s1 lows del: exec_from.simps)
  also have "\<dots> = exec_from hook_rx (CHR ''h'' # rev ''/* Installed via wkkkis-'' @ pre)
                      (''ooks'' @ '' | hook:'' @ y)"
    by (rule s2)
  also have "\<dots> = exec_from hook_rx (rev ''/* Installed via wkkkis-hooks | '' @ pre)
                      (''hook:'' @ y)"
    by (simp add: s1 lows del: exec_from.simps)
  finally show ?thesis by simp
qed


lemma first_is_iff: "first_is r st y \<longleftrightarrow> (\<exists>t. rmatch r st = y # t)"
  by (auto simp: first_is_def split: list.splits)

lemma first_Cat: "first_is a st x \<Longrightarrow> first_is b x y \<Longrightarrow> first_is (Cat a b) st y"
  by (auto simp: first_is_iff)

lemma first_Eps: "first_is Eps st st"
  by (simp add: first_is_iff)

lemma seq_Cons: "seq (r # rs) = Cat r (seq rs)"
  by (simp add: seq_def)

lemma seq_Nil: "seq [] = Eps"
  by (simp add: seq_def)

lemma first_lit: "first_is (lit s) (pre, s @ r, cs) (rev s @ pre, r, cs)"
  by (simp add: first_is_iff rmatch_lit)

lemma first_lit_ci:
  "map to_lower s' = map to_lower s \<Longrightarrow>
   first_is (lit_ci s) (pre, s' @ r, cs) (rev s' @ pre, r, cs)"
proof -
  assume m: "map to_lower s' = map to_lower s"
  then have "length s' = length s" by (metis length_map)
  with m show ?thesis by (simp add: first_is_iff rmatch_lit_ci)
qed

lemma first_plus:
  "w \<noteq> [] \<Longrightarrow> list_all p w \<Longrightarrow> r = [] \<or> \<not> p (hd r) \<Longrightarrow>
   first_is (plus p) (pre, w @ r, cs) (rev w @ pre, r, cs)"
  using rmatch_plus [of w p r pre cs] by (simp add: first_is_iff)

lemma first_Grp:
  "first_is a (pre, w @ r, cs) (pre', r, cs') \<Longrightarrow>
   first_is (Grp n a) (pre, w @ r, cs) (pre', r, (n, w) # cs')"
  by (auto simp: first_is_iff)

lemma not_digit_simps:
  "\<not> is_digit (CHR ''.'')" "\<not> is_digit (CHR '' '')" "\<not> is_id_char (CHR ''@'')"
  by code_simp+

lemma first_version:
  assumes "digits a" "digits b" "digits c" "r = [] \<or> \<not> is_digit (hd r)"
  shows "first_is (seq [plus is_digit, lit ''.'', plus is_digit, lit ''.'', plus is_digit])
           (pre, dotted a b c @ r, cs) (rev (dotted a b c) @ pre, r, cs)"
proof -
  from assms have
    1: "first_is (plus is_digit) (pre, a @ (''.'' @ b @ ''.'' @ c @ r), cs)
          (rev a @ pre, ''.'' @ b @ ''.'' @ c @ r, cs)"
    and 3: "first_is (plus is_digit) (rev ''.'' @ rev a @ pre, b @ (''.'' @ c @ r), cs)
          (rev b @ rev ''.'' @ rev a @ pre, ''.'' @ c @ r, cs)"
    and 5: "first_is (plus is_digit) (rev ''.'' @ rev b @ rev ''.'' @ rev a @ pre, c @ r, cs)
          (rev c @ rev ''.'' @ rev b @ rev ''.'' @ rev a @ pre, r, cs)"
    by (auto intro!: first_plus simp: digits_def not_digit_simps)
  have 2: "first_is (lit ''.'') (rev a @ pre, ''.'' @ (b @ ''.'' @ c @ r), cs)
          (rev ''.'' @ rev a @ pre, b @ ''.'' @ c @ r, cs)"
    by (rule first_lit)
  have 4: "first_is (lit ''.'') (rev b @ rev ''.'' @ rev a @ pre, ''.'' @ (c @ r), cs)
          (rev ''.'' @ rev b @ rev ''.'' @ rev a @ pre, c @ r, cs)"
    by (rule first_lit)
  have "first_is (seq [plus is_digit, lit ''.'', plus is_digit, lit ''.'', plus is_digit])
           (pre, a @ (''.'' @ b @ ''.'' @ c @ r), cs)
           (rev c @ rev ''.'' @ rev b @ rev ''.'' @ rev a @ pre, r, cs)"
    unfolding seq_Cons seq_Nil
    using 1 2 3 4 5 by (auto intro!: first_Cat first_Eps simp del: append_assoc)
  then show ?thesis by (simp add: dotted_def)
qed



lemma hook_rx_cat:
  "hook_rx = Cat (lit_ci ''hook:'') (Cat (Grp 1 (plus is_id_char)) (Cat (lit_ci ''@'')
     (Cat (Grp 2 (seq [plus is_digit, lit ''.'', plus is_digit, lit ''.'', plus is_digit]))
        Eps)))"
  by (simp add: hook_rx_def seq_def)

lemma first_hook_rx:
  assumes i: "id_ok i" and v: "digits a" "digits b" "digits c"
    and r: "r = [] \<or> \<not> is_digit (hd r)"
  shows "first_is hook_rx (pre, ''hook:'' @ i @ ''@'' @ dotted a b c @ r, [])
           (rev (''hook:'' @ i @ ''@'' @ dotted a b c) @ pre, r, [(2, dotted a b c), (1, i)])"
proof -
  have 1: "first_is (lit_ci ''hook:'') (pre, ''hook:'' @ (i @ ''@'' @ dotted a b c @ r), [])
             (rev ''hook:'' @ pre, i @ ''@'' @ dotted a b c @ r, [])"
    by (rule first_lit_ci) simp
  have "first_is (plus is_id_char) (rev ''hook:'' @ pre, i @ (''@'' @ dotted a b c @ r), [])
             (rev i @ rev ''hook:'' @ pre, ''@'' @ dotted a b c @ r, [])"
    using i by (auto intro!: first_plus simp: id_ok_def not_digit_simps)
  then have 2: "first_is (Grp 1 (plus is_id_char))
             (rev ''hook:'' @ pre, i @ (''@'' @ dotted a b c @ r), [])
             (rev i @ rev ''hook:'' @ pre, ''@'' @ dotted a b c @ r, [(1, i)])"
    by (rule first_Grp)
  have 3: "first_is (lit_ci ''@'') (rev i @ rev ''hook:'' @ pre, ''@'' @ (dotted a b c @ r), [(1, i)])
             (rev ''@'' @ rev i @ rev ''hook:'' @ pre, dotted a b c @ r, [(1, i)])"
    by (rule first_lit_ci) simp
  have 4: "first_is (Grp 2 (seq [plus is_digit, lit ''.'', plus is_digit, lit ''.'', plus is_digit]))
             (rev ''@'' @ rev i @ rev ''hook:'' @ pre, dotted a b c @ r, [(1, i)])
             (rev (dotted a b c) @ rev ''@'' @ rev i @ rev ''hook:'' @ pre, r,
              [(2, dotted a b c), (1, i)])"
    by (rule first_Grp) (rule first_version [OF v r])
  have "first_is hook_rx (pre, ''hook:'' @ (i @ ''@'' @ dotted a b c @ r), [])
          (rev (dotted a b c) @ rev ''@'' @ rev i @ rev ''hook:'' @ pre, r,
              [(2, dotted a b c), (1, i)])"
    unfolding hook_rx_cat
    using 1 2 3 4 by (auto intro!: first_Cat first_Eps simp del: append_assoc)
  then show ?thesis by simp
qed

lemma exec_from_hit:
  "first_is r (pre, x, []) st \<Longrightarrow> exec_from r pre x = Some (found pre x st)"
  by (cases x) (auto simp: first_is_iff)

lemma decode_header_line:
  assumes i: "id_ok i" and v: "digits a" "digits b" "digits c"
    and r: "r = [] \<or> \<not> is_digit (hd r)"
  shows "(case exec hook_rx (''/* Installed via wkkkis-hooks | hook:'' @ i @ ''@'' @ dotted a b c @ r) of
            None \<Rightarrow> None
          | Some m \<Rightarrow> (case (group (groups m) 1, group (groups m) 2) of
                         (Some i, Some v) \<Rightarrow> Some (i, v) | _ \<Rightarrow> None))
         = Some (i, dotted a b c)"
proof -
  let ?y = "i @ ''@'' @ dotted a b c @ r"
  have "exec hook_rx (''/* Installed via wkkkis-hooks | '' @ ''hook:'' @ ?y) =
        exec_from hook_rx (rev ''/* Installed via wkkkis-hooks | '' @ []) (''hook:'' @ ?y)"
    unfolding exec_def by (rule skip_banner)
  also have "\<dots> = Some (found (rev ''/* Installed via wkkkis-hooks | '' @ []) (''hook:'' @ ?y)
      (rev (''hook:'' @ i @ ''@'' @ dotted a b c) @ rev ''/* Installed via wkkkis-hooks | '' @ [],
       r, [(2, dotted a b c), (1, i)]))"
    by (rule exec_from_hit) (rule first_hook_rx [OF i v r])
  finally show ?thesis by (simp add: found_def group_def)
qed


lemma mem_Cat:
  "st \<in> set (rmatch (Cat a b) s0) \<longleftrightarrow> (\<exists>s1 \<in> set (rmatch a s0). st \<in> set (rmatch b s1))"
  by auto

lemma mem_Eps: "st \<in> set (rmatch Eps s0) \<longleftrightarrow> st = s0"
  by auto

lemma mem_lit:
  "st \<in> set (rmatch (lit s) (pre, x, cs)) \<longleftrightarrow> (\<exists>r. x = s @ r \<and> st = (rev s @ pre, r, cs))"
proof (induction s arbitrary: pre x)
  case Nil
  then show ?case by (simp add: lit_def seq_def)
next
  case (Cons a s)
  have unf: "rmatch (lit (a # s)) st0 =
      concat (map (rmatch (lit s)) (rmatch (Atom (\<lambda>d. d = a)) st0))" for st0
    by (simp add: lit_def seq_def)
  show ?case
  proof (cases x)
    case Nil
    then show ?thesis by (simp add: unf)
  next
    case (Cons c r)
    then show ?thesis using Cons.IH [of "c # pre" r] by (auto simp: unf)
  qed
qed

lemma mem_lit_ci:
  "st \<in> set (rmatch (lit_ci s) (pre, x, cs)) \<Longrightarrow>
   \<exists>s' r. x = s' @ r \<and> map to_lower s' = map to_lower s \<and> st = (rev s' @ pre, r, cs)"
  by (rule exI [of _ "take (length s) x"], rule exI [of _ "drop (length s) x"])
     (simp add: rmatch_lit_ci split: if_splits)

lemma mem_many:
  "st \<in> set (many p pre x cs) \<Longrightarrow>
   \<exists>w r. x = w @ r \<and> list_all p w \<and> st = (rev w @ pre, r, cs)"
proof (induction x arbitrary: pre)
  case Nil
  then show ?case by simp
next
  case (Cons c x)
  show ?case
  proof (cases "p c \<and> st \<in> set (many p (c # pre) x cs)")
    case True
    with Cons.IH [of "c # pre"] obtain w r where
      "x = w @ r" "list_all p w" "st = (rev w @ c # pre, r, cs)" by blast
    with True show ?thesis
      by (intro exI [of _ "c # w"] exI [of _ r]) simp
  next
    case False
    with Cons.prems have "st = (pre, c # x, cs)" by (auto split: if_splits)
    then show ?thesis by (intro exI [of _ "[]"] exI [of _ "c # x"]) simp
  qed
qed

lemma mem_plus:
  "st \<in> set (rmatch (plus p) (pre, x, cs)) \<Longrightarrow>
   \<exists>w r. w \<noteq> [] \<and> list_all p w \<and> x = w @ r \<and> st = (rev w @ pre, r, cs)"
proof -
  assume a: "st \<in> set (rmatch (plus p) (pre, x, cs))"
  then obtain c y where x: "x = c # y" "p c" and m: "st \<in> set (many p (c # pre) y cs)"
    by (cases x) (auto simp: plus_def split: if_splits)
  from mem_many [OF m] obtain w r where "y = w @ r" "list_all p w" "st = (rev w @ c # pre, r, cs)"
    by blast
  with x show ?thesis by (intro exI [of _ "c # w"] exI [of _ r]) simp
qed

lemma mem_Grp:
  "st \<in> set (rmatch (Grp n a) (pre, x, cs)) \<Longrightarrow>
   \<exists>pre' r cs'. (pre', r, cs') \<in> set (rmatch a (pre, x, cs)) \<and>
      st = (pre', r, (n, take (length x - length r) x) # cs')"
  by auto

lemma mem_version:
  assumes "st \<in> set (rmatch (seq [plus is_digit, lit ''.'', plus is_digit, lit ''.'', plus is_digit])
                       (pre, x, cs))"
  shows "\<exists>a b c r. digits a \<and> digits b \<and> digits c \<and> x = dotted a b c @ r \<and>
           st = (rev (dotted a b c) @ pre, r, cs)"
proof -
  from assms obtain s1 s2 s3 s4 where
    1: "s1 \<in> set (rmatch (plus is_digit) (pre, x, cs))"
    and 2: "s2 \<in> set (rmatch (lit ''.'') s1)"
    and 3: "s3 \<in> set (rmatch (plus is_digit) s2)"
    and 4: "s4 \<in> set (rmatch (lit ''.'') s3)"
    and 5: "st \<in> set (rmatch (plus is_digit) s4)"
    unfolding seq_Cons seq_Nil mem_Cat mem_Eps by auto
  from mem_plus [OF 1] obtain a r1 where a: "a \<noteq> []" "list_all is_digit a" "x = a @ r1"
    "s1 = (rev a @ pre, r1, cs)" by blast
  from 2 a(4) obtain r2 where r2: "r1 = ''.'' @ r2" "s2 = (rev ''.'' @ rev a @ pre, r2, cs)"
    by (auto simp: mem_lit)
  from mem_plus [OF 3 [unfolded r2(2)]] obtain b r3 where b: "b \<noteq> []" "list_all is_digit b"
    "r2 = b @ r3" "s3 = (rev b @ rev ''.'' @ rev a @ pre, r3, cs)" by blast
  from 4 b(4) obtain r4 where r4: "r3 = ''.'' @ r4"
    "s4 = (rev ''.'' @ rev b @ rev ''.'' @ rev a @ pre, r4, cs)"
    by (auto simp: mem_lit)
  from mem_plus [OF 5 [unfolded r4(2)]] obtain c r where c: "c \<noteq> []" "list_all is_digit c"
    "r4 = c @ r" "st = (rev c @ rev ''.'' @ rev b @ rev ''.'' @ rev a @ pre, r, cs)" by blast
  from a b c r2 r4 show ?thesis
    by (intro exI [of _ a] exI [of _ b] exI [of _ c] exI [of _ r]) (simp add: digits_def dotted_def)
qed

lemma mem_hook_rx:
  assumes "st \<in> set (rmatch hook_rx (pre, x, []))"
  shows "\<exists>h i a b c r. map to_lower h = ''hook:'' \<and> id_ok i \<and> digits a \<and> digits b \<and> digits c \<and>
           x = h @ i @ ''@'' @ dotted a b c @ r \<and>
           st = (rev (h @ i @ ''@'' @ dotted a b c) @ pre, r, [(2, dotted a b c), (1, i)])"
proof -
  from assms obtain s1 s2 s3 where
    1: "s1 \<in> set (rmatch (lit_ci ''hook:'') (pre, x, []))"
    and 2: "s2 \<in> set (rmatch (Grp 1 (plus is_id_char)) s1)"
    and 3: "s3 \<in> set (rmatch (lit_ci ''@'') s2)"
    and 4: "st \<in> set (rmatch (Grp 2 (seq [plus is_digit, lit ''.'', plus is_digit, lit ''.'',
                 plus is_digit])) s3)"
    unfolding hook_rx_cat mem_Cat mem_Eps by auto
  from mem_lit_ci [OF 1] obtain h r1 where h0: "x = h @ r1"
    "map to_lower h = map to_lower ''hook:''" "s1 = (rev h @ pre, r1, [])" by blast
  then have h: "x = h @ r1" "map to_lower h = ''hook:''" "s1 = (rev h @ pre, r1, [])"
    by (simp_all add: to_lower_simps)
  from mem_Grp [OF 2 [unfolded h(3)]] obtain p2 r2 c2 where
    g: "(p2, r2, c2) \<in> set (rmatch (plus is_id_char) (rev h @ pre, r1, []))"
       "s2 = (p2, r2, (1, take (length r1 - length r2) r1) # c2)" by blast
  from mem_plus [OF g(1)] obtain i where i: "i \<noteq> []" "list_all is_id_char i" "r1 = i @ r2"
    "p2 = rev i @ rev h @ pre" "c2 = []" by auto
  with g(2) have s2: "s2 = (rev i @ rev h @ pre, r2, [(1, i)])" by simp
  from mem_lit_ci [OF 3 [unfolded s2]] obtain at r3 where at: "r2 = at @ r3"
    "map to_lower at = map to_lower ''@''" "s3 = (rev at @ rev i @ rev h @ pre, r3, [(1, i)])"
    by blast
  from at(2) obtain c where c: "at = [c]" "to_lower c = CHR ''@''"
    by (cases at) (auto simp: to_lower_simps)
  have "c = CHR ''@''"
  proof (cases "is_upper c")
    case True
    then have "ccode (to_lower c) = ccode c + 32"
      by (simp add: to_lower_def is_upper_def ccode_def)
    with c(2) True show ?thesis by (simp add: is_upper_def ccode_def)
  next
    case False
    with c(2) show ?thesis by (simp add: to_lower_def)
  qed
  with c at have at': "r2 = ''@'' @ r3" "s3 = (rev ''@'' @ rev i @ rev h @ pre, r3, [(1, i)])"
    by simp_all
  from mem_Grp [OF 4 [unfolded at'(2)]] obtain p4 r c4 where
    g4: "(p4, r, c4) \<in> set (rmatch (seq [plus is_digit, lit ''.'', plus is_digit, lit ''.'',
                 plus is_digit]) (rev ''@'' @ rev i @ rev h @ pre, r3, [(1, i)]))"
        "st = (p4, r, (2, take (length r3 - length r) r3) # c4)" by blast
  from mem_version [OF g4(1)] obtain a b d where v: "digits a" "digits b" "digits d"
    "r3 = dotted a b d @ r" "p4 = rev (dotted a b d) @ rev ''@'' @ rev i @ rev h @ pre"
    "c4 = [(1, i)]" by auto
  from h i at' v g4(2) show ?thesis
    by (intro exI [of _ h] exI [of _ i] exI [of _ a] exI [of _ b] exI [of _ d] exI [of _ r])
       (simp add: id_ok_def)
qed

lemma exec_from_Some:
  "exec_from r pre x = Some m \<Longrightarrow>
   \<exists>u y st t. x = u @ y \<and> rmatch r (rev u @ pre, y, []) = st # t \<and>
     m = found (rev u @ pre) y st"
proof (induction x arbitrary: pre)
  case Nil
  then show ?case by (auto split: list.splits)
next
  case (Cons c x)
  show ?case
  proof (cases "rmatch r (pre, c # x, [])")
    case Nil
    with Cons.prems have "exec_from r (c # pre) x = Some m" by simp
    from Cons.IH [OF this] obtain u y st t where
      "x = u @ y" "rmatch r (rev u @ c # pre, y, []) = st # t" "m = found (rev u @ c # pre) y st"
      by blast
    then show ?thesis
      by (intro exI [of _ "c # u"] exI [of _ y] exI [of _ st] exI [of _ t]) simp
  next
    case (Cons st t)
    with Cons.prems have "m = found pre (c # x) st" by simp
    with Cons show ?thesis
      by (intro exI [of _ "[]"] exI [of _ "c # x"] exI [of _ st] exI [of _ t]) simp
  qed
qed


lemma decode_header_encoded:
  assumes i: "id_ok i" and v: "digits a" "digits b" "digits c"
    and ver: "(case ver of None \<Rightarrow> ''0.0.0'' | Some x \<Rightarrow> x) = dotted a b c"
    and len: "length i + length (dotted a b c) + 38 \<le> 2048"
  shows "decode_header (header_line i ver rv @ content) = Some (i, dotted a b c)"
proof -
  let ?P = "''/* Installed via wkkkis-hooks | hook:''"
  let ?rest = "'' | registry:'' @ (case rv of None \<Rightarrow> ''0'' | Some x \<Rightarrow> x) @ '' */'' @ [nl] @ content"
  let ?k = "2048 - (length i + length (dotted a b c) + 38)"
  have h: "header_line i ver rv @ content = ?P @ i @ ''@'' @ dotted a b c @ ?rest"
    using ver by (simp add: header_line_def)
  define A where "A = ?P @ i @ ''@'' @ dotted a b c"
  have lA: "length A = length i + length (dotted a b c) + 38" by (simp add: A_def)
  have "take 2048 (A @ ?rest) = A @ take (2048 - length A) ?rest"
    using len lA by simp
  then have t: "take 2048 (?P @ i @ ''@'' @ dotted a b c @ ?rest) =
           ?P @ i @ ''@'' @ dotted a b c @ take ?k ?rest"
    by (simp add: A_def)
  have r: "take ?k ?rest = [] \<or> \<not> is_digit (hd (take ?k ?rest))"
    by (cases ?k) (simp_all add: not_digit_simps)
  from decode_header_line [OF i v r] show ?thesis
    unfolding decode_header_def h t by simp
qed

lemma decode_header_sound:
  assumes "decode_header content = Some (i, v)"
  shows "\<exists>u h a b c r. take 2048 content = u @ h @ i @ ''@'' @ v @ r \<and>
           map to_lower h = ''hook:'' \<and> id_ok i \<and> v = dotted a b c \<and>
           digits a \<and> digits b \<and> digits c"
proof -
  from assms obtain m where m: "exec hook_rx (take 2048 content) = Some m"
    and g: "group (groups m) 1 = Some i" "group (groups m) 2 = Some v"
    by (auto simp: decode_header_def split: option.splits)
  from exec_from_Some [OF m [unfolded exec_def]] obtain u y st t where
    x: "take 2048 content = u @ y" and st: "rmatch hook_rx (rev u @ [], y, []) = st # t"
    and f: "m = found (rev u @ []) y st" by blast
  from st have "st \<in> set (rmatch hook_rx (rev u @ [], y, []))" by simp
  from mem_hook_rx [OF this] obtain h i' a b c r where
    p: "map to_lower h = ''hook:''" "id_ok i'" "digits a" "digits b" "digits c"
       "y = h @ i' @ ''@'' @ dotted a b c @ r"
       "st = (rev (h @ i' @ ''@'' @ dotted a b c) @ rev u @ [], r, [(2, dotted a b c), (1, i')])"
    by (elim exE conjE) (rule that)
  from f p(7) g have "i' = i" "dotted a b c = v" by (simp_all add: found_def group_def)
  with x p show ?thesis
    by (intro exI [of _ u] exI [of _ h] exI [of _ a] exI [of _ b] exI [of _ c] exI [of _ r]) simp
qed

text \<open>
  Claim C2, as amended. (1) For a hook id made of one or more letters, digits and
  hyphens, and a version of three runs of digits separated by dots (or an absent version,
  which the header writes as \<open>0.0.0\<close>), with the id and the version ending within the
  first 2048 code units: \<open>parseLocalHookVersion\<close> on a file that holds the header line
  followed by any text returns that id and that version, whatever the registry version
  is. (2) Whatever \<open>parseLocalHookVersion\<close> returns as id and version stands in the first
  2048 code units of the file as \<open>hook:\<close> (in any case), the id, \<open>@\<close> and the version; so
  a text without that pattern gives the empty result. (3) For a path that is not a
  directory it never ends with an error.
\<close>

theorem header_round_trip:
  "(id_ok i \<and> digits a \<and> digits b \<and> digits c \<and>
    (case ver of None \<Rightarrow> ''0.0.0'' | Some x \<Rightarrow> x) = dotted a b c \<and>
    length i + length (dotted a b c) + 38 \<le> 2048 \<and>
    lookup (files w) p = Some (File (header_line i ver rv @ content))
    \<longrightarrow> parseLocalHookVersion p w = (Inr (Some (i, dotted a b c)), w)) \<and>
   (lookup (files w) p = Some (File body) \<and>
    parseLocalHookVersion p w = (Inr (Some (j, v)), w)
    \<longrightarrow> (\<exists>u h x y z r. take 2048 body = u @ h @ j @ ''@'' @ v @ r \<and>
           map to_lower h = ''hook:'' \<and> id_ok j \<and> v = dotted x y z \<and>
           digits x \<and> digits y \<and> digits z)) \<and>
   (lookup (files w) p \<noteq> Some Dir \<longrightarrow> (\<exists>res. parseLocalHookVersion p w = (Inr res, w)))"
proof (intro conjI impI)
  assume a: "id_ok i \<and> digits a \<and> digits b \<and> digits c \<and>
    (case ver of None \<Rightarrow> ''0.0.0'' | Some x \<Rightarrow> x) = dotted a b c \<and>
    length i + length (dotted a b c) + 38 \<le> 2048 \<and>
    lookup (files w) p = Some (File (header_line i ver rv @ content))"
  then have "decode_header (header_line i ver rv @ content) = Some (i, dotted a b c)"
    using decode_header_encoded [of i a b c ver rv content] by blast
  with a show "parseLocalHookVersion p w = (Inr (Some (i, dotted a b c)), w)"
    by (simp add: parseLocalHookVersion_def io_bind_apply existsSync_def readFile_def)
next
  assume a: "lookup (files w) p = Some (File body) \<and>
    parseLocalHookVersion p w = (Inr (Some (j, v)), w)"
  then have "decode_header body = Some (j, v)"
    by (auto simp: parseLocalHookVersion_def io_bind_apply existsSync_def readFile_def)
  from decode_header_sound [OF this]
  show "\<exists>u h x y z r. take 2048 body = u @ h @ j @ ''@'' @ v @ r \<and>
           map to_lower h = ''hook:'' \<and> id_ok j \<and> v = dotted x y z \<and>
           digits x \<and> digits y \<and> digits z" .
next
  assume "lookup (files w) p \<noteq> Some Dir"
  then show "\<exists>res. parseLocalHookVersion p w = (Inr res, w)"
    by (cases "lookup (files w) p")
       (auto simp: parseLocalHookVersion_def io_bind_apply existsSync_def readFile_def
             split: node.splits)
qed

theorem header_round_trip_witness:
  "id_ok ''use-b'' \<and> digits ''1'' \<and> digits ''2'' \<and> digits ''0'' \<and>
   lookup (files hdr_world) ''/p/f.ts''
     = Some (File (header_line ''use-b'' (Some ''1.2.0'') (Some ''7'') @ ex_source)) \<and>
   parseLocalHookVersion ''/p/f.ts'' hdr_world = (Inr (Some (''use-b'', ''1.2.0'')), hdr_world) \<and>
   (\<exists>u h x y z r.
      take 2048 (header_line ''use-b'' (Some ''1.2.0'') (Some ''7'') @ ex_source)
        = u @ h @ ''use-b'' @ ''@'' @ ''1.2.0'' @ r \<and>
      map to_lower h = ''hook:'' \<and> id_ok ''use-b'' \<and> ''1.2.0'' = dotted x y z \<and>
      digits x \<and> digits y \<and> digits z) \<and>
   (\<exists>res. parseLocalHookVersion ''/p/f.ts'' hdr_world = (Inr res, hdr_world))"
proof -
  have i: "id_ok ''use-b''" by code_simp
  have d: "digits ''1''" "digits ''2''" "digits ''0''" by code_simp+
  have v: "dotted ''1'' ''2'' ''0'' = ''1.2.0''" by (simp add: dotted_def)
  have l: "lookup (files hdr_world) ''/p/f.ts''
     = Some (File (header_line ''use-b'' (Some ''1.2.0'') (Some ''7'') @ ex_source))"
    by (simp add: hdr_world_def lookup_def)
  have n: "length ''use-b'' + length (dotted ''1'' ''2'' ''0'') + 38 \<le> 2048"
    by (simp add: v)
  note t = header_round_trip [where i = "''use-b''" and a = "''1''" and b = "''2''"
      and c = "''0''" and ver = "Some ''1.2.0''" and rv = "Some ''7''" and content = ex_source
      and w = hdr_world and p = "''/p/f.ts''" and j = "''use-b''" and v = "''1.2.0''"
      and body = "header_line ''use-b'' (Some ''1.2.0'') (Some ''7'') @ ex_source"]
  from t i d l n have p: "parseLocalHookVersion ''/p/f.ts'' hdr_world
      = (Inr (Some (''use-b'', ''1.2.0'')), hdr_world)"
    by (simp add: v)
  from t l p have s: "\<exists>u h x y z r.
      take 2048 (header_line ''use-b'' (Some ''1.2.0'') (Some ''7'') @ ex_source)
        = u @ h @ ''use-b'' @ ''@'' @ ''1.2.0'' @ r \<and>
      map to_lower h = ''hook:'' \<and> id_ok ''use-b'' \<and> ''1.2.0'' = dotted x y z \<and>
      digits x \<and> digits y \<and> digits z"
    by blast
  from t l have e: "\<exists>res. parseLocalHookVersion ''/p/f.ts'' hdr_world = (Inr res, hdr_world)"
    by simp
  from i d l p s e show ?thesis by blast
qed

text \<open>
  The claim as stated fails for a hook id with an underscore, which the pattern does not
  read: the header of \<open>use_b\<close> decodes to the empty result. It fails for a version with
  a suffix as well: \<open>1.2.0-rc.1\<close> decodes to \<open>1.2.0\<close>.
\<close>

theorem header_round_trip_counterexample:
  "lookup (files underscore_world) ''/p/f.ts''
     = Some (File (header_line ''use_b'' (Some ''1.2.0'') (Some ''7'') @ ex_source)) \<and>
   parseLocalHookVersion ''/p/f.ts'' underscore_world = (Inr None, underscore_world) \<and>
   decode_header (header_line ''use-b'' (Some ''1.2.0-rc.1'') (Some ''7'') @ ex_source)
     = Some (''use-b'', ''1.2.0'')"
proof -
  have l: "lookup (files underscore_world) ''/p/f.ts''
     = Some (File (header_line ''use_b'' (Some ''1.2.0'') (Some ''7'') @ ex_source))"
    by (simp add: underscore_world_def lookup_def)
  have d: "decode_header (header_line ''use_b'' (Some ''1.2.0'') (Some ''7'') @ ex_source) = None"
    by code_simp
  from l d have p: "parseLocalHookVersion ''/p/f.ts'' underscore_world
      = (Inr None, underscore_world)"
    by (simp add: parseLocalHookVersion_def io_bind_apply existsSync_def readFile_def)
  have r: "decode_header (header_line ''use-b'' (Some ''1.2.0-rc.1'') (Some ''7'') @ ex_source)
     = Some (''use-b'', ''1.2.0'')"
    by code_simp
  from l p r show ?thesis by simp
qed

section \<open>Matches of the alias pattern\<close>

lemma rmatch_consumes:
  "(pre', x', cs') \<in> set (rmatch r (pre, x, cs)) \<Longrightarrow> \<exists>w. x = w @ x' \<and> pre' = rev w @ pre"
proof (induction r arbitrary: pre x cs pre' x' cs')
  case (Atom p)
  then show ?case by (cases x) (auto split: if_splits)
next
  case (Many p)
  then have "(pre', x', cs') \<in> set (many p pre x cs)" by simp
  from mem_many [OF this] show ?case by auto
next
  case (Cat a b)
  from Cat.prems obtain p1 x1 c1 where 1: "(p1, x1, c1) \<in> set (rmatch a (pre, x, cs))"
    and 2: "(pre', x', cs') \<in> set (rmatch b (p1, x1, c1))" by auto
  from Cat.IH(1) [OF 1] obtain w1 where w1: "x = w1 @ x1" "p1 = rev w1 @ pre" by auto
  from Cat.IH(2) [OF 2] obtain w2 where w2: "x1 = w2 @ x'" "pre' = rev w2 @ p1" by auto
  from w1 w2 show ?case by (intro exI [of _ "w1 @ w2"]) simp
next
  case (Alt a b)
  from Alt.prems have "(pre', x', cs') \<in> set (rmatch a (pre, x, cs)) \<or>
      (pre', x', cs') \<in> set (rmatch b (pre, x, cs))"
    by auto
  then show ?case using Alt.IH by blast
next
  case (Opt a)
  from Opt.prems have "(pre', x', cs') \<in> set (rmatch a (pre, x, cs)) \<or>
      (pre', x', cs') = (pre, x, cs)" by auto
  then show ?case using Opt.IH by auto
next
  case (Grp n a)
  from mem_Grp [OF Grp.prems] obtain c0 where
    m: "(pre', x', c0) \<in> set (rmatch a (pre, x, cs))" by auto
  from Grp.IH [OF m] show ?case .
next
  case (Bol m)
  then show ?case by (auto split: if_splits)
next
  case Eps
  then show ?case by auto
qed

lemma rmatch_nogroups:
  "nogroups r \<Longrightarrow> (pre', x', cs') \<in> set (rmatch r (pre, x, cs)) \<Longrightarrow> cs' = cs"
proof (induction r arbitrary: pre x cs pre' x' cs')
  case (Atom p)
  then show ?case by (cases x) (auto split: if_splits)
next
  case (Many p)
  then have "(pre', x', cs') \<in> set (many p pre x cs)" by simp
  from mem_many [OF this] show ?case by auto
next
  case (Cat a b)
  from Cat.prems obtain p1 x1 c1 where 1: "(p1, x1, c1) \<in> set (rmatch a (pre, x, cs))"
    and 2: "(pre', x', cs') \<in> set (rmatch b (p1, x1, c1))" by auto
  from Cat.IH(1) [OF _ 1] Cat.prems(1) have "c1 = cs" by simp
  with Cat.IH(2) [OF _ 2] Cat.prems(1) show ?case by simp
next
  case (Alt a b)
  from Alt.prems have "(pre', x', cs') \<in> set (rmatch a (pre, x, cs)) \<or>
      (pre', x', cs') \<in> set (rmatch b (pre, x, cs))"
    by auto
  then show ?case using Alt.IH Alt.prems(1) by auto
next
  case (Opt a)
  from Opt.prems have "(pre', x', cs') \<in> set (rmatch a (pre, x, cs)) \<or>
      (pre', x', cs') = (pre, x, cs)" by auto
  then show ?case using Opt.IH Opt.prems(1) by auto
next
  case (Grp n a)
  then show ?case by simp
next
  case (Bol m)
  then show ?case by (auto split: if_splits)
next
  case Eps
  then show ?case by auto
qed

lemma nogroups_lit: "nogroups (lit s)"
  by (induction s) (simp_all add: lit_def seq_def)

lemma nogroups_seq: "list_all nogroups rs \<Longrightarrow> nogroups (seq rs)"
  by (induction rs) (simp_all add: seq_def)

lemma nogroups_plus: "nogroups (plus p)"
  by (simp add: plus_def)

text \<open>One of the four shapes: a left group, the prefix, the subpath, a right group.\<close>

lemma mem_shape:
  assumes m: "st' \<in> set (rmatch (seq [Grp g1 (Cat (lit kw) L), lit pfx, Grp g2 (plus not_quote),
                               Grp g3 R]) (pre, x, cs))"
    and ng: "nogroups L" "nogroups R"
  shows "\<exists>l sp r rest. x = (kw @ l) @ pfx @ sp @ r @ rest \<and> sp \<noteq> [] \<and> list_all not_quote sp \<and>
           st' = (rev ((kw @ l) @ pfx @ sp @ r) @ pre, rest,
                  [(g3, r), (g2, sp), (g1, kw @ l)] @ cs) \<and>
           (\<exists>p0 p1 y c0 c1. (p1, y, c1) \<in> set (rmatch L (p0, l @ y, c0))) \<and>
           (\<exists>p0 p1 c0 c1. (p1, rest, c1) \<in> set (rmatch R (p0, r @ rest, c0)))"
proof -
  from m obtain s1 s2 s3 where
    1: "s1 \<in> set (rmatch (Grp g1 (Cat (lit kw) L)) (pre, x, cs))"
    and 2: "s2 \<in> set (rmatch (lit pfx) s1)"
    and 3: "s3 \<in> set (rmatch (Grp g2 (plus not_quote)) s2)"
    and 4: "st' \<in> set (rmatch (Grp g3 R) s3)"
    unfolding seq_Cons seq_Nil mem_Cat mem_Eps by blast
  from mem_Grp [OF 1] obtain p1 x1 c1 where
    a: "(p1, x1, c1) \<in> set (rmatch (Cat (lit kw) L) (pre, x, cs))"
    and s1: "s1 = (p1, x1, (g1, take (length x - length x1) x) # c1)" by blast
  from a obtain sk where k: "sk \<in> set (rmatch (lit kw) (pre, x, cs))"
    and l: "(p1, x1, c1) \<in> set (rmatch L sk)" unfolding mem_Cat by blast
  from k obtain xk where xk: "x = kw @ xk" "sk = (rev kw @ pre, xk, cs)"
    by (auto simp: mem_lit)
  from rmatch_consumes [OF l [unfolded xk(2)]] obtain wl where
    wl: "xk = wl @ x1" "p1 = rev wl @ rev kw @ pre" by auto
  from rmatch_nogroups [OF ng(1) l [unfolded xk(2)]] have c1: "c1 = cs" .
  from xk wl have tk: "take (length x - length x1) x = kw @ wl" by simp
  from 2 s1 obtain x2 where x2: "x1 = pfx @ x2"
    "s2 = (rev pfx @ p1, x2, (g1, kw @ wl) # cs)"
    by (auto simp: mem_lit tk c1)
  from mem_Grp [OF 3 [unfolded x2(2)]] obtain p3 x3 c3 where
    b: "(p3, x3, c3) \<in> set (rmatch (plus not_quote) (rev pfx @ p1, x2, (g1, kw @ wl) # cs))"
    and s3: "s3 = (p3, x3, (g2, take (length x2 - length x3) x2) # c3)" by blast
  from mem_plus [OF b] obtain sp where sp: "sp \<noteq> []" "list_all not_quote sp" "x2 = sp @ x3"
    "p3 = rev sp @ rev pfx @ p1" "c3 = (g1, kw @ wl) # cs" by auto
  then have s3': "s3 = (rev sp @ rev pfx @ p1, x3, (g2, sp) # (g1, kw @ wl) # cs)"
    using s3 by simp
  from mem_Grp [OF 4 [unfolded s3']] obtain p4 rest c4 where
    c: "(p4, rest, c4) \<in> set (rmatch R (rev sp @ rev pfx @ p1, x3, (g2, sp) # (g1, kw @ wl) # cs))"
    and st: "st' = (p4, rest, (g3, take (length x3 - length rest) x3) # c4)" by blast
  from rmatch_consumes [OF c] obtain r where r: "x3 = r @ rest" "p4 = rev r @ rev sp @ rev pfx @ p1"
    by auto
  from rmatch_nogroups [OF ng(2) c] have c4: "c4 = (g2, sp) # (g1, kw @ wl) # cs" .
  from l xk wl have lm: "\<exists>p0 p1 y c0 c1. (p1, y, c1) \<in> set (rmatch L (p0, wl @ y, c0))"
    by blast
  from c r have rm: "\<exists>p0 p1 c0 c1. (p1, rest, c1) \<in> set (rmatch R (p0, r @ rest, c0))"
    by blast
  from xk wl x2 sp r st c4 have
    "x = (kw @ wl) @ pfx @ sp @ r @ rest \<and> sp \<noteq> [] \<and> list_all not_quote sp \<and>
     st' = (rev ((kw @ wl) @ pfx @ sp @ r) @ pre, rest,
            [(g3, r), (g2, sp), (g1, kw @ wl)] @ cs)"
    by simp
  with lm rm show ?thesis
    by (intro exI [of _ wl] exI [of _ sp] exI [of _ r] exI [of _ rest]) (intro conjI, blast+)
qed

lemma seq_last_atom:
  "(p', x', c') \<in> set (rmatch (seq (rs @ [Atom P])) (p, x, c)) \<Longrightarrow>
   \<exists>w ch. x = w @ ch # x' \<and> P ch"
proof (induction rs arbitrary: p x c)
  case Nil
  then show ?case by (cases x) (auto simp: seq_def split: if_splits)
next
  case (Cons r rs)
  from Cons.prems obtain p1 x1 c1 where
    1: "(p1, x1, c1) \<in> set (rmatch r (p, x, c))"
    and 2: "(p', x', c') \<in> set (rmatch (seq (rs @ [Atom P])) (p1, x1, c1))"
    by (auto simp: seq_def)
  from rmatch_consumes [OF 1] obtain w1 where w1: "x = w1 @ x1" by blast
  from Cons.IH [OF 2] obtain w ch where "x1 = w @ ch # x'" "P ch" by blast
  with w1 show ?case by (intro exI [of _ "w1 @ w"] exI [of _ ch]) simp
qed

lemma atom_first:
  "(p', x', c') \<in> set (rmatch (Atom P) (p, x, c)) \<Longrightarrow> \<exists>ch. x = ch # x' \<and> P ch"
  by (cases x) (auto split: if_splits)

lemma seq_first_atom:
  assumes "(p', x', c') \<in> set (rmatch (seq (Atom P # rs)) (p, x, c))"
  shows "\<exists>ch w. x = ch # w @ x' \<and> P ch"
proof -
  from assms obtain p1 x1 c1 where
    1: "(p1, x1, c1) \<in> set (rmatch (Atom P) (p, x, c))"
    and 2: "(p', x', c') \<in> set (rmatch (seq rs) (p1, x1, c1))"
    unfolding seq_Cons mem_Cat by (auto simp del: rmatch.simps)
  from atom_first [OF 1] obtain ch where ch: "x = ch # x1" "P ch" by blast
  from rmatch_consumes [OF 2] obtain w where "x1 = w @ x'" by blast
  with ch show ?thesis by blast
qed

lemma starts_quote:
  assumes "(p1, rest, c1) \<in> set (rmatch (Atom is_quote) (p0, r @ rest, c0)) \<or>
           (p1, rest, c1) \<in> set (rmatch (seq (Atom is_quote # rs)) (p0, r @ rest, c0))"
  shows "r \<noteq> [] \<and> is_quote (hd r)"
proof -
  from assms obtain ch w where w: "r @ rest = ch # w @ rest" "is_quote ch"
  proof
    assume "(p1, rest, c1) \<in> set (rmatch (Atom is_quote) (p0, r @ rest, c0))"
    from atom_first [OF this] obtain ch where "r @ rest = ch # [] @ rest" "is_quote ch" by auto
    with that show ?thesis by blast
  next
    assume "(p1, rest, c1) \<in> set (rmatch (seq (Atom is_quote # rs)) (p0, r @ rest, c0))"
    from seq_first_atom [OF this] that show ?thesis by blast
  qed
  then have "r = ch # w" by simp
  with w(2) show ?thesis by simp
qed

lemma ends_quote:
  assumes "(p1, y, c1) \<in> set (rmatch (seq (rs @ [Atom is_quote])) (p0, l @ y, c0))"
  shows "l \<noteq> [] \<and> is_quote (last l)"
proof -
  from seq_last_atom [OF assms] obtain w ch where w: "l @ y = w @ ch # y" "is_quote ch" by blast
  then have "l = w @ [ch]" by simp
  with w(2) show ?thesis by simp
qed


declare scan.simps [simp del]

lemma source_simps [simp]: "source (Plain c) = [c]" "source (Hit m cs) = m"
  by (simp_all add: source_def)

lemma render_simps [simp]: "render f (Plain c) = [c]" "render f (Hit m cs) = f m cs"
  by (simp_all add: render_def)

lemma scan_source: "concat (map source (scan r pre x)) = x"
proof (induction r pre x rule: scan.induct)
  case (1 r pre rest)
  show ?case
  proof (cases "rmatch r (pre, rest, [])")
    case Nil
    show ?thesis
    proof (cases rest)
      case Nil
      with \<open>rmatch r (pre, rest, []) = []\<close> show ?thesis
        by (subst scan.simps) simp
    next
      case (Cons c t)
      with \<open>rmatch r (pre, rest, []) = []\<close> "1.IH"(1) show ?thesis
        by (subst scan.simps) simp
    qed
  next
    case (Cons st ts)
    obtain pre' rest' cs where st: "st = (pre', rest', cs)" by (cases st)
    from Cons st have "(pre', rest', cs) \<in> set (rmatch r (pre, rest, []))" by simp
    from rmatch_consumes [OF this] obtain w where w: "rest = w @ rest'" by blast
    show ?thesis
    proof (cases "length rest' < length rest")
      case True
      with Cons st "1.IH"(2) w show ?thesis
        by (subst scan.simps) simp
    next
      case False
      with w have e: "w = []" "rest' = rest" by simp_all
      show ?thesis
      proof (cases rest)
        case Nil
        with Cons st False show ?thesis by (subst scan.simps) simp
      next
        case (Cons c t)
        with \<open>rmatch r (pre, rest, []) = st # ts\<close> st False "1.IH"(3) show ?thesis
          by (subst scan.simps) simp
      qed
    qed
  qed
qed

lemma scan_Hit:
  "Hit m cs \<in> set (scan r pre x) \<Longrightarrow>
   \<exists>pre0 y p' y' t. rmatch r (pre0, y, []) = (p', y', cs) # t \<and> m = take (length y - length y') y"
proof (induction r pre x rule: scan.induct)
  case (1 r pre rest)
  show ?case
  proof (cases "rmatch r (pre, rest, [])")
    case Nil
    show ?thesis
    proof (cases rest)
      case Nil
      with \<open>rmatch r (pre, rest, []) = []\<close> "1.prems" show ?thesis
        by (subst (asm) scan.simps) simp
    next
      case (Cons c t)
      with \<open>rmatch r (pre, rest, []) = []\<close> "1.prems" have "Hit m cs \<in> set (scan r (c # pre) t)"
        by (subst (asm) scan.simps) simp
      with "1.IH"(1) \<open>rmatch r (pre, rest, []) = []\<close> Cons show ?thesis by blast
    qed
  next
    case (Cons st ts)
    obtain pre' rest' cs' where st: "st = (pre', rest', cs')" by (cases st)
    show ?thesis
    proof (cases "length rest' < length rest")
      case True
      with Cons st "1.prems" have
        "(m = take (length rest - length rest') rest \<and> cs = cs') \<or>
         Hit m cs \<in> set (scan r pre' rest')"
        by (subst (asm) scan.simps) auto
      then show ?thesis
      proof
        assume "m = take (length rest - length rest') rest \<and> cs = cs'"
        with Cons st show ?thesis by blast
      next
        assume "Hit m cs \<in> set (scan r pre' rest')"
        with "1.IH"(2) Cons st True show ?thesis by blast
      qed
    next
      case False
      show ?thesis
      proof (cases rest)
        case Nil
        with Cons st False "1.prems" have "m = [] \<and> cs = cs'"
          by (subst (asm) scan.simps) auto
        with Cons st False Nil show ?thesis
          by (intro exI [of _ pre] exI [of _ rest] exI [of _ pre'] exI [of _ rest'] exI [of _ ts])
             simp
      next
        case c: (Cons c t)
        with Cons st False "1.prems" have
          "(m = [] \<and> cs = cs') \<or> Hit m cs \<in> set (scan r (c # pre) t)"
          by (subst (asm) scan.simps) auto
        then show ?thesis
        proof
          assume a: "m = [] \<and> cs = cs'"
          from Cons st have "(pre', rest', cs') \<in> set (rmatch r (pre, rest, []))" by simp
          from rmatch_consumes [OF this] False have "length rest' = length rest" by auto
          with a Cons st show ?thesis
            by (intro exI [of _ pre] exI [of _ rest] exI [of _ pre'] exI [of _ rest'] exI [of _ ts])
               simp
        next
          assume "Hit m cs \<in> set (scan r (c # pre) t)"
          with "1.IH"(3) Cons st False c show ?thesis by blast
        qed
      qed
    qed
  qed
qed

lemma scan_no_match:
  "exec_from r pre x = None \<Longrightarrow> scan r pre x = map Plain x"
proof (induction x arbitrary: pre)
  case Nil
  then show ?case by (subst scan.simps) (auto split: list.splits)
next
  case (Cons c x)
  from Cons.prems have n: "rmatch r (pre, c # x, []) = []" and e: "exec_from r (c # pre) x = None"
    by (auto split: list.splits)
  from Cons.IH [OF e] n show ?case by (subst scan.simps) simp
qed

lemma replace_all_no_match: "exec r s = None \<Longrightarrow> replace_all r f s = s"
  by (simp add: replace_all_def exec_def scan_no_match comp_def)


lemma from_rx_shape:
  "from_rx pfx = seq [Grp 1 (Cat (lit ''from'') (seq [plus is_space, Atom is_quote])), lit pfx,
                      Grp 2 (plus not_quote), Grp 3 (Atom is_quote)]"
  by (simp add: from_rx_def seq_def)

lemma import_rx_shape:
  "import_rx pfx =
     seq [Grp 4 (Cat (lit ''import'') (seq [Many is_space, lit ''('', Many is_space, Atom is_quote])),
          lit pfx, Grp 5 (plus not_quote), Grp 6 (seq [Atom is_quote, Many is_space, lit '')''])]"
  by (simp add: import_rx_def seq_def)

lemma export_rx_shape:
  "export_rx pfx =
     seq [Grp 7 (Cat (lit ''export'') (seq [Many is_space, lit ''*'', Many is_space, lit ''from'',
                      Many is_space, Atom is_quote])),
          lit pfx, Grp 8 (plus not_quote), Grp 9 (Atom is_quote)]"
  by (simp add: export_rx_def seq_def)

lemma require_rx_shape:
  "require_rx pfx =
     seq [Grp 10 (Cat (lit ''require('') (seq [Many is_space, Atom is_quote])), lit pfx,
          Grp 11 (plus not_quote), Grp 12 (seq [Atom is_quote, Many is_space, lit '')''])]"
  by (simp add: require_rx_def seq_def)

lemma mem_alias_rx:
  assumes "st' \<in> set (rmatch (alias_rx pfx) (pre, x, []))"
  shows "\<exists>k l sp r rest. k \<in> {0, 3, 6, 9} \<and> l \<noteq> [] \<and> sp \<noteq> [] \<and> list_all not_quote sp \<and>
           x = l @ pfx @ sp @ r @ rest \<and>
           st' = (rev (l @ pfx @ sp @ r) @ pre, rest, [(k + 3, r), (k + 2, sp), (k + 1, l)]) \<and>
           is_quote (last l) \<and> r \<noteq> [] \<and> is_quote (hd r)"
proof -
  have ng: "nogroups (seq [plus is_space, Atom is_quote])"
    "nogroups (seq [Many is_space, lit ''('', Many is_space, Atom is_quote])"
    "nogroups (seq [Many is_space, lit ''*'', Many is_space, lit ''from'', Many is_space,
                    Atom is_quote])"
    "nogroups (seq [Many is_space, Atom is_quote])"
    "nogroups (Atom is_quote)"
    "nogroups (seq [Atom is_quote, Many is_space, lit '')''])"
    by (simp_all add: nogroups_seq nogroups_lit nogroups_plus)
  have sh: "seq [plus is_space, Atom is_quote] = seq ([plus is_space] @ [Atom is_quote])"
    "seq [Many is_space, lit ''('', Many is_space, Atom is_quote] =
       seq ([Many is_space, lit ''('', Many is_space] @ [Atom is_quote])"
    "seq [Many is_space, lit ''*'', Many is_space, lit ''from'', Many is_space, Atom is_quote] =
       seq ([Many is_space, lit ''*'', Many is_space, lit ''from'', Many is_space] @
            [Atom is_quote])"
    "seq [Many is_space, Atom is_quote] = seq ([Many is_space] @ [Atom is_quote])"
    by simp_all
  have fin: "\<exists>k l sp r rest. k \<in> {0, 3, 6, 9} \<and> l \<noteq> [] \<and> sp \<noteq> [] \<and> list_all not_quote sp \<and>
           x = l @ pfx @ sp @ r @ rest \<and>
           st' = (rev (l @ pfx @ sp @ r) @ pre, rest, [(k + 3, r), (k + 2, sp), (k + 1, l)]) \<and>
           is_quote (last l) \<and> r \<noteq> [] \<and> is_quote (hd r)"
    if k: "k \<in> {0, 3, 6, 9}"
      and x: "x = (kw @ l) @ pfx @ sp @ r @ rest" and sp: "sp \<noteq> []" "list_all not_quote sp"
      and st: "st' = (rev ((kw @ l) @ pfx @ sp @ r) @ pre, rest,
                      [(k + 3, r), (k + 2, sp), (k + 1, kw @ l)])"
      and lq: "l \<noteq> [] \<and> is_quote (last l)" and rq: "r \<noteq> [] \<and> is_quote (hd r)"
    for k kw l sp r rest
  proof -
    from lq have "kw @ l \<noteq> []" "is_quote (last (kw @ l))" by simp_all
    with k x sp st rq show ?thesis
      by (intro exI [of _ k] exI [of _ "kw @ l"] exI [of _ sp] exI [of _ r] exI [of _ rest])
         (intro conjI, blast+)
  qed
  from assms consider
      "st' \<in> set (rmatch (from_rx pfx) (pre, x, []))"
    | "st' \<in> set (rmatch (import_rx pfx) (pre, x, []))"
    | "st' \<in> set (rmatch (export_rx pfx) (pre, x, []))"
    | "st' \<in> set (rmatch (require_rx pfx) (pre, x, []))"
    by (auto simp: alias_rx_def)
  then show ?thesis
  proof cases
    case 1
    from mem_shape [OF 1 [unfolded from_rx_shape] ng(1) ng(5)] obtain l sp r rest p0 p1 y c0 c1
      q0 q1 d0 d1 where
      a: "x = (''from'' @ l) @ pfx @ sp @ r @ rest" "sp \<noteq> []" "list_all not_quote sp"
      "st' = (rev ((''from'' @ l) @ pfx @ sp @ r) @ pre, rest,
              [(3, r), (2, sp), (1, ''from'' @ l)] @ [])"
      and lm: "(p1, y, c1) \<in> set (rmatch (seq [plus is_space, Atom is_quote]) (p0, l @ y, c0))"
      and rm: "(q1, rest, d1) \<in> set (rmatch (Atom is_quote) (q0, r @ rest, d0))"
      by blast
    from ends_quote [OF lm [unfolded sh(1)]] have lq: "l \<noteq> [] \<and> is_quote (last l)" .
    from starts_quote [of q1 rest d1 q0 r d0 "[]"] rm have rq: "r \<noteq> [] \<and> is_quote (hd r)"
      by blast
    from a(4) have st: "st' = (rev ((''from'' @ l) @ pfx @ sp @ r) @ pre, rest,
              [(0 + 3, r), (0 + 2, sp), (0 + 1, ''from'' @ l)])" by simp
    show ?thesis by (rule fin [OF _ a(1) a(2) a(3) st lq rq]) simp
  next
    case 2
    from mem_shape [OF 2 [unfolded import_rx_shape] ng(2) ng(6)] obtain l sp r rest p0 p1 y c0 c1
      q0 q1 d0 d1 where
      a: "x = (''import'' @ l) @ pfx @ sp @ r @ rest" "sp \<noteq> []" "list_all not_quote sp"
      "st' = (rev ((''import'' @ l) @ pfx @ sp @ r) @ pre, rest,
              [(6, r), (5, sp), (4, ''import'' @ l)] @ [])"
      and lm: "(p1, y, c1) \<in> set (rmatch (seq [Many is_space, lit ''('', Many is_space,
                  Atom is_quote]) (p0, l @ y, c0))"
      and rm: "(q1, rest, d1) \<in> set (rmatch (seq [Atom is_quote, Many is_space, lit '')''])
                  (q0, r @ rest, d0))"
      by blast
    from ends_quote [OF lm [unfolded sh(2)]] have lq: "l \<noteq> [] \<and> is_quote (last l)" .
    from starts_quote [of q1 rest d1 q0 r d0 "[Many is_space, lit '')'']"] rm
    have rq: "r \<noteq> [] \<and> is_quote (hd r)" by blast
    from a(4) have st: "st' = (rev ((''import'' @ l) @ pfx @ sp @ r) @ pre, rest,
              [(3 + 3, r), (3 + 2, sp), (3 + 1, ''import'' @ l)])" by simp
    show ?thesis by (rule fin [OF _ a(1) a(2) a(3) st lq rq]) simp
  next
    case 3
    from mem_shape [OF 3 [unfolded export_rx_shape] ng(3) ng(5)] obtain l sp r rest p0 p1 y c0 c1
      q0 q1 d0 d1 where
      a: "x = (''export'' @ l) @ pfx @ sp @ r @ rest" "sp \<noteq> []" "list_all not_quote sp"
      "st' = (rev ((''export'' @ l) @ pfx @ sp @ r) @ pre, rest,
              [(9, r), (8, sp), (7, ''export'' @ l)] @ [])"
      and lm: "(p1, y, c1) \<in> set (rmatch (seq [Many is_space, lit ''*'', Many is_space,
                  lit ''from'', Many is_space, Atom is_quote]) (p0, l @ y, c0))"
      and rm: "(q1, rest, d1) \<in> set (rmatch (Atom is_quote) (q0, r @ rest, d0))"
      by blast
    from ends_quote [OF lm [unfolded sh(3)]] have lq: "l \<noteq> [] \<and> is_quote (last l)" .
    from starts_quote [of q1 rest d1 q0 r d0 "[]"] rm have rq: "r \<noteq> [] \<and> is_quote (hd r)"
      by blast
    from a(4) have st: "st' = (rev ((''export'' @ l) @ pfx @ sp @ r) @ pre, rest,
              [(6 + 3, r), (6 + 2, sp), (6 + 1, ''export'' @ l)])" by simp
    show ?thesis by (rule fin [OF _ a(1) a(2) a(3) st lq rq]) simp
  next
    case 4
    from mem_shape [OF 4 [unfolded require_rx_shape] ng(4) ng(6)] obtain l sp r rest p0 p1 y c0 c1
      q0 q1 d0 d1 where
      a: "x = (''require('' @ l) @ pfx @ sp @ r @ rest" "sp \<noteq> []" "list_all not_quote sp"
      "st' = (rev ((''require('' @ l) @ pfx @ sp @ r) @ pre, rest,
              [(12, r), (11, sp), (10, ''require('' @ l)] @ [])"
      and lm: "(p1, y, c1) \<in> set (rmatch (seq [Many is_space, Atom is_quote]) (p0, l @ y, c0))"
      and rm: "(q1, rest, d1) \<in> set (rmatch (seq [Atom is_quote, Many is_space, lit '')''])
                  (q0, r @ rest, d0))"
      by blast
    from ends_quote [OF lm [unfolded sh(4)]] have lq: "l \<noteq> [] \<and> is_quote (last l)" .
    from starts_quote [of q1 rest d1 q0 r d0 "[Many is_space, lit '')'']"] rm
    have rq: "r \<noteq> [] \<and> is_quote (hd r)" by blast
    from a(4) have st: "st' = (rev ((''require('' @ l) @ pfx @ sp @ r) @ pre, rest,
              [(9 + 3, r), (9 + 2, sp), (9 + 1, ''require('' @ l)])" by simp
    show ?thesis by (rule fin [OF _ a(1) a(2) a(3) st lq rq]) simp
  qed
qed

lemma pick_groups_shape:
  "k \<in> {0, 3, 6, 9} \<Longrightarrow> l \<noteq> [] \<Longrightarrow>
   pick_groups [(k + 3, r), (k + 2, sp), (k + 1, l)] [0, 3, 6, 9] = (l, Some sp, Some r)"
  by (auto simp: group_def)

lemma alias_callback_shape:
  "k \<in> {0, 3, 6, 9} \<Longrightarrow> l \<noteq> [] \<Longrightarrow> sp \<noteq> [] \<Longrightarrow>
   alias_callback cw tgt dest m [(k + 3, r), (k + 2, sp), (k + 1, l)] =
     l @ relative_import cw tgt dest sp @ r"
proof -
  assume a: "k \<in> {0, 3, 6, 9}" "l \<noteq> []" "sp \<noteq> []"
  from pick_groups_shape [OF a(1) a(2), of r sp] a(3) show ?thesis
    unfolding alias_callback_def by (simp only: prod.case option.case shown_def if_False)
qed

lemma includes_start: "starts_with s p \<Longrightarrow> str_includes s p"
  by (cases s) (auto simp: starts_with_def)

lemma includes_mid: "str_includes (a @ p @ b) p"
  by (induction a) (auto simp: starts_with_def intro: includes_start)


lemma alias_match_includes:
  assumes "exec (alias_rx pfx) s = Some m"
  shows "str_includes s pfx"
proof -
  from exec_from_Some [OF assms [unfolded exec_def]] obtain u y st t where
    x: "s = u @ y" and st: "rmatch (alias_rx pfx) (rev u @ [], y, []) = st # t" by blast
  from st have "st \<in> set (rmatch (alias_rx pfx) (rev u @ [], y, []))" by simp
  from mem_alias_rx [OF this] obtain l sp r rest where "y = l @ pfx @ sp @ r @ rest" by blast
  with x have "s = (u @ l) @ pfx @ (sp @ r @ rest)" by simp
  then show ?thesis using includes_mid [of "u @ l" pfx "sp @ r @ rest"] by simp
qed

text \<open>
  Claim C8, as amended. \<open>rewriteAliasImports\<close> returns the text it was given when the
  alias prefix or the alias target is absent (or the empty string); when the pattern of
  the four shapes with the configured prefix matches nowhere in the text; and, in
  particular, when the normalized prefix does not occur in the text at all, so a text
  whose imports do not use the prefix, relative imports among them, is not altered. For
  every text, with a prefix and a target: the scan cuts the text into the characters
  outside every match and the matches; a character outside every match is copied as it
  is; a match is \<open>left\<close>, the normalized prefix, a subpath without quotes and \<open>right\<close>,
  where \<open>left\<close> ends with a quote and \<open>right\<close> begins with one, and it is replaced by
  \<open>left\<close>, the relative path and \<open>right\<close>. So the text of an import is altered only where
  it holds such a match, and there only from the prefix to the closing quote.
\<close>

theorem rewrite_pass_through:
  "(ap_opt = None \<or> ap_opt = Some [] \<or> tgt_opt = None \<or> tgt_opt = Some []
      \<longrightarrow> rewriteAliasImports cw src ap_opt tgt_opt dest root = src) \<and>
   (exec (alias_rx (normalized_prefix ap)) src = None
      \<longrightarrow> rewriteAliasImports cw src (Some ap) tgt_opt dest root = src) \<and>
   (\<not> str_includes src (normalized_prefix ap)
      \<longrightarrow> rewriteAliasImports cw src (Some ap) tgt_opt dest root = src) \<and>
   (ap \<noteq> [] \<and> tgt \<noteq> [] \<longrightarrow>
      concat (map source (scan (alias_rx (normalized_prefix ap)) [] src)) = src \<and>
      rewriteAliasImports cw src (Some ap) (Some tgt) dest root =
        concat (map (render (alias_callback cw (path_resolve cw [root, tgt]) dest))
                 (scan (alias_rx (normalized_prefix ap)) [] src)) \<and>
      (\<forall>p \<in> set (scan (alias_rx (normalized_prefix ap)) [] src).
         case p of
           Plain c \<Rightarrow> render (alias_callback cw (path_resolve cw [root, tgt]) dest) p = [c]
         | Hit m cs \<Rightarrow>
             (\<exists>l sp r.
                m = l @ normalized_prefix ap @ sp @ r \<and>
                l \<noteq> [] \<and> is_quote (last l) \<and>
                sp \<noteq> [] \<and> list_all not_quote sp \<and>
                r \<noteq> [] \<and> is_quote (hd r) \<and>
                render (alias_callback cw (path_resolve cw [root, tgt]) dest) p =
                  l @ relative_import cw (path_resolve cw [root, tgt]) dest sp @ r)))"
proof (intro conjI impI ballI)
  assume "ap_opt = None \<or> ap_opt = Some [] \<or> tgt_opt = None \<or> tgt_opt = Some []"
  then show "rewriteAliasImports cw src ap_opt tgt_opt dest root = src"
    by (auto simp: rewriteAliasImports_def split: option.splits)
next
  assume "exec (alias_rx (normalized_prefix ap)) src = None"
  then show "rewriteAliasImports cw src (Some ap) tgt_opt dest root = src"
    by (simp add: rewriteAliasImports_def replace_all_no_match split: option.splits)
next
  assume n: "\<not> str_includes src (normalized_prefix ap)"
  have "exec (alias_rx (normalized_prefix ap)) src = None"
  proof (cases "exec (alias_rx (normalized_prefix ap)) src")
    case None
    then show ?thesis .
  next
    case (Some m)
    from alias_match_includes [OF this] n show ?thesis by simp
  qed
  then show "rewriteAliasImports cw src (Some ap) tgt_opt dest root = src"
    by (simp add: rewriteAliasImports_def replace_all_no_match split: option.splits)
next
  show "concat (map source (scan (alias_rx (normalized_prefix ap)) [] src)) = src"
    by (rule scan_source)
next
  assume "ap \<noteq> [] \<and> tgt \<noteq> []"
  then show "rewriteAliasImports cw src (Some ap) (Some tgt) dest root =
        concat (map (render (alias_callback cw (path_resolve cw [root, tgt]) dest))
                 (scan (alias_rx (normalized_prefix ap)) [] src))"
    by (simp add: rewriteAliasImports_def replace_all_def)
next
  fix p
  assume p: "p \<in> set (scan (alias_rx (normalized_prefix ap)) [] src)"
  let ?T = "path_resolve cw [root, tgt]"
  show "case p of
          Plain c \<Rightarrow> render (alias_callback cw ?T dest) p = [c]
        | Hit m cs \<Rightarrow>
            (\<exists>l sp r.
               m = l @ normalized_prefix ap @ sp @ r \<and>
               l \<noteq> [] \<and> is_quote (last l) \<and>
               sp \<noteq> [] \<and> list_all not_quote sp \<and>
               r \<noteq> [] \<and> is_quote (hd r) \<and>
               render (alias_callback cw ?T dest) p = l @ relative_import cw ?T dest sp @ r)"
  proof (cases p)
    case (Plain c)
    then show ?thesis by simp
  next
    case (Hit m cs)
    from scan_Hit [OF p [unfolded Hit]] obtain pre0 y p' y' t where
      rm: "rmatch (alias_rx (normalized_prefix ap)) (pre0, y, []) = (p', y', cs) # t"
      and m: "m = take (length y - length y') y" by blast
    from rm have "(p', y', cs) \<in> set (rmatch (alias_rx (normalized_prefix ap)) (pre0, y, []))"
      by simp
    from mem_alias_rx [OF this] obtain k l sp r rest where
      k: "k \<in> {0, 3, 6, 9}" "l \<noteq> []" "sp \<noteq> []" "list_all not_quote sp"
      and y: "y = l @ normalized_prefix ap @ sp @ r @ rest"
      and st: "(p', y', cs) = (rev (l @ normalized_prefix ap @ sp @ r) @ pre0, rest,
                 [(k + 3, r), (k + 2, sp), (k + 1, l)])"
      and q: "is_quote (last l)" "r \<noteq> []" "is_quote (hd r)" by blast
    from y st m have m': "m = l @ normalized_prefix ap @ sp @ r" by simp
    from st have cs: "cs = [(k + 3, r), (k + 2, sp), (k + 1, l)]" by simp
    have cb: "render (alias_callback cw ?T dest) (Hit m cs) =
                l @ relative_import cw ?T dest sp @ r"
      unfolding cs render_simps by (rule alias_callback_shape [OF k(1) k(2) k(3)])
    have "\<exists>l sp r.
               m = l @ normalized_prefix ap @ sp @ r \<and>
               l \<noteq> [] \<and> is_quote (last l) \<and>
               sp \<noteq> [] \<and> list_all not_quote sp \<and>
               r \<noteq> [] \<and> is_quote (hd r) \<and>
               render (alias_callback cw ?T dest) (Hit m cs) =
                 l @ relative_import cw ?T dest sp @ r"
      using m' k(2) k(3) k(4) q cb
      by (intro exI [of _ l] exI [of _ sp] exI [of _ r]) (intro conjI, blast+)
    then show ?thesis unfolding Hit by (simp only: piece.case)
  qed
qed

theorem rewrite_pass_through_witness:
  "exec (alias_rx (normalized_prefix ''@'')) rel_source = None \<and>
   rewriteAliasImports ''/p'' rel_source (Some ''@'') (Some ''src'') ''/p/src/hooks/use-b.ts'' ''/p''
     = rel_source \<and>
   \<not> str_includes rel_source (normalized_prefix ''~'') \<and>
   rewriteAliasImports ''/p'' rel_source (Some ''~'') (Some ''src'') ''/p/src/hooks/use-b.ts'' ''/p''
     = rel_source \<and>
   rewriteAliasImports ''/p'' ex_source (Some ''@/'') None ''/p/src/hooks/use-b.ts'' ''/p''
     = ex_source \<and>
   ''@/'' \<noteq> [] \<and> ''src'' \<noteq> [] \<and>
   concat (map source (scan (alias_rx (normalized_prefix ''@/'')) [] ex_source)) = ex_source \<and>
   rewriteAliasImports ''/p'' ex_source (Some ''@/'') (Some ''src'') ''/p/src/hooks/use-b.ts'' ''/p''
     = concat (map (render (alias_callback ''/p'' (path_resolve ''/p'' [''/p'', ''src''])
                             ''/p/src/hooks/use-b.ts''))
                (scan (alias_rx (normalized_prefix ''@/'')) [] ex_source)) \<and>
   rewriteAliasImports ''/p'' ex_source (Some ''@/'') (Some ''src'') ''/p/src/hooks/use-b.ts'' ''/p''
     = ''import { y } from '' @ [dq] @ ''../lib/y'' @ [dq] @ '';'' @ [nl] @
       ''export const useB = y;'' @ [nl]"
proof -
  have a: "exec (alias_rx (normalized_prefix ''@'')) rel_source = None" by code_simp
  have b: "\<not> str_includes rel_source (normalized_prefix ''~'')" by code_simp
  note t1 = rewrite_pass_through [where ap = "''@''" and src = rel_source and cw = "''/p''"
      and tgt_opt = "Some ''src''" and dest = "''/p/src/hooks/use-b.ts''" and root = "''/p''"
      and ap_opt = None and tgt = "''src''"]
  note t2 = rewrite_pass_through [where ap = "''~''" and src = rel_source and cw = "''/p''"
      and tgt_opt = "Some ''src''" and dest = "''/p/src/hooks/use-b.ts''" and root = "''/p''"
      and ap_opt = None and tgt = "''src''"]
  note t3 = rewrite_pass_through [where ap = "''@/''" and src = ex_source and cw = "''/p''"
      and tgt_opt = None and dest = "''/p/src/hooks/use-b.ts''" and root = "''/p''"
      and ap_opt = "Some ''@/''" and tgt = "''src''"]
  have ne: "''@/'' \<noteq> [] \<and> ''src'' \<noteq> []" by simp
  note r1 = t1 [THEN conjunct2, THEN conjunct1, THEN mp, OF a]
  note r2 = t2 [THEN conjunct2, THEN conjunct2, THEN conjunct1, THEN mp, OF b]
  have r3: "rewriteAliasImports ''/p'' ex_source (Some ''@/'') None
      ''/p/src/hooks/use-b.ts'' ''/p'' = ex_source"
    by (rule t3 [THEN conjunct1, THEN mp]) simp
  note r4 = t3 [THEN conjunct2, THEN conjunct2, THEN conjunct2, THEN mp, OF ne]
  note r5 = r4 [THEN conjunct1]
  note r6 = r4 [THEN conjunct2, THEN conjunct1]
  have v: "rewriteAliasImports ''/p'' ex_source (Some ''@/'') (Some ''src'')
             ''/p/src/hooks/use-b.ts'' ''/p''
     = ''import { y } from '' @ [dq] @ ''../lib/y'' @ [dq] @ '';'' @ [nl] @
       ''export const useB = y;'' @ [nl]"
    by code_simp
  from ne have n1: "''@/'' \<noteq> []" and n2: "''src'' \<noteq> []" by simp_all
  from a r1 b r2 r3 n1 n2 r5 r6 v show ?thesis by (intro conjI)
qed

text \<open>
  The claim as stated fails for an import whose source does not start with the prefix
  and holds a match inside its string: the source of the import below is the string
  \<open>from '@/x'\<close>, and the text of the import is altered.
\<close>

theorem rewrite_pass_through_counterexample:
  "nested_source =
     ''import a from '' @ [dq] @ (''from '' @ [sq] @ ''@/x'' @ [sq]) @ [dq] @ '';'' \<and>
   \<not> starts_with (''from '' @ [sq] @ ''@/x'' @ [sq]) (normalized_prefix ''@/'') \<and>
   rewriteAliasImports ''/p'' nested_source (Some ''@/'') (Some ''src'')
     ''/p/src/hooks/use-b.ts'' ''/p''
     = ''import a from '' @ [dq] @ (''from '' @ [sq] @ ''../x'' @ [sq]) @ [dq] @ '';'' \<and>
   rewriteAliasImports ''/p'' nested_source (Some ''@/'') (Some ''src'')
     ''/p/src/hooks/use-b.ts'' ''/p'' \<noteq> nested_source"
proof -
  have 1: "nested_source =
     ''import a from '' @ [dq] @ (''from '' @ [sq] @ ''@/x'' @ [sq]) @ [dq] @ '';''"
    by (simp add: nested_source_def)
  have 2: "\<not> starts_with (''from '' @ [sq] @ ''@/x'' @ [sq]) (normalized_prefix ''@/'')"
    by code_simp
  have 3: "rewriteAliasImports ''/p'' nested_source (Some ''@/'') (Some ''src'')
     ''/p/src/hooks/use-b.ts'' ''/p''
     = ''import a from '' @ [dq] @ (''from '' @ [sq] @ ''../x'' @ [sq]) @ [dq] @ '';''"
    by code_simp
  have 4: "rewriteAliasImports ''/p'' nested_source (Some ''@/'') (Some ''src'')
     ''/p/src/hooks/use-b.ts'' ''/p'' \<noteq> nested_source"
    unfolding 3 by (simp add: nested_source_def)
  from 1 2 3 4 show ?thesis by (intro conjI)
qed

section \<open>Resolving paths\<close>

lemma split_on_cat: "split_on sep (x @ sep # y) = split_on sep x @ split_on sep y"
proof (induction x)
  case Nil
  then show ?case by simp
next
  case (Cons a x)
  then show ?case by (cases "split_on sep x") (auto simp: split_on_ne)
qed

lemma split_no_sep: "s \<in> set (split_on c x) \<Longrightarrow> c \<notin> set s"
proof (induction x arbitrary: s)
  case Nil
  then show ?case by simp
next
  case (Cons a x)
  then show ?case by (cases "split_on c x") (auto split: if_splits)
qed

lemma split_chars: "s \<in> set (split_on c x) \<Longrightarrow> ch \<in> set s \<Longrightarrow> ch \<in> set x"
proof (induction x arbitrary: s)
  case Nil
  then show ?case by simp
next
  case (Cons a y)
  show ?case
  proof (cases "a = c")
    case True
    with Cons.prems have "s = [] \<or> s \<in> set (split_on c y)" by simp
    with Cons.IH Cons.prems(2) show ?thesis by auto
  next
    case False
    obtain p ps where sp: "split_on c y = p # ps"
      using split_on_ne [of c y] by (cases "split_on c y") auto
    with False Cons.prems have "s = a # p \<or> s \<in> set ps" by simp
    with Cons.IH [of p] Cons.IH [of s] sp Cons.prems(2) show ?thesis by auto
  qed
qed

lemma split_join:
  "xs \<noteq> [] \<Longrightarrow> \<forall>s \<in> set xs. c \<notin> set s \<Longrightarrow> split_on c (join_with [c] xs) = xs"
proof (induction xs rule: induct_list012)
  case 1
  then show ?case by simp
next
  case (2 x)
  then show ?case by (simp add: split_on_plain)
next
  case (3 x y zs)
  then show ?case by (simp add: split_on_append)
qed

lemma norm_step_normal:
  "list_all normal_seg st \<Longrightarrow> CHR ''/'' \<notin> set seg \<Longrightarrow>
   list_all normal_seg (norm_step False st seg)"
  by (auto simp: norm_step_def normal_seg_def list_all_iff dest: in_set_butlastD)

lemma foldl_norm_normal:
  "list_all normal_seg st \<Longrightarrow> \<forall>s \<in> set segs. CHR ''/'' \<notin> set s \<Longrightarrow>
   list_all normal_seg (foldl (norm_step False) st segs)"
  by (induction segs arbitrary: st) (simp_all add: norm_step_normal)

lemma norm_push: "list_all normal_seg t \<Longrightarrow> foldl (norm_step False) st t = st @ t"
  by (induction t arbitrary: st) (simp_all add: norm_step_def normal_seg_def)

lemma norm_pop:
  "list_all normal_seg f \<Longrightarrow>
   foldl (norm_step False) (c @ f) (replicate (length f) ''..'') = c"
proof (induction f rule: rev_induct)
  case Nil
  then show ?case by simp
next
  case (snoc x f)
  then have "normal_seg x" "list_all normal_seg f" by simp_all
  then have st: "norm_step False (c @ f @ [x]) ''..'' = c @ f"
    by (simp add: norm_step_def normal_seg_def butlast_append)
  have "replicate (length (f @ [x])) ''..'' = ''..'' # replicate (length f) ''..''" by simp
  then have "foldl (norm_step False) (c @ f @ [x]) (replicate (length (f @ [x])) ''..'') =
             foldl (norm_step False) (norm_step False (c @ f @ [x]) ''..'')
               (replicate (length f) ''..'')"
    by (simp only: foldl_Cons)
  with st snoc.IH \<open>list_all normal_seg f\<close> show ?case by simp
qed

lemma norm_skip: "norm_step False st [] = st" "norm_step False st ''.'' = st"
  by (simp_all add: norm_step_def)

lemma drop_common_split: "drop_common f t = (f', t') \<Longrightarrow> \<exists>c. f = c @ f' \<and> t = c @ t'"
proof (induction f t rule: drop_common.induct)
  case (1 a as b bs)
  show ?case
  proof (cases "a = b")
    case True
    with 1 obtain c where "as = c @ f'" "bs = c @ t'" by auto
    with True show ?thesis by (intro exI [of _ "a # c"]) simp
  next
    case False
    with 1 show ?thesis by (intro exI [of _ "[]"]) simp
  qed
qed (auto)


lemma resolve_acc_acc:
  "resolve_acc xs acc = (fst (resolve_acc xs []) @ acc, snd (resolve_acc xs []))"
proof (induction xs arbitrary: acc)
  case Nil
  then show ?case by simp
next
  case (Cons p ps)
  show ?case
  proof (cases "p = [] \<or> hd p = CHR ''/''")
    case True
    then show ?thesis using Cons.IH [of acc] by auto
  next
    case False
    with Cons.IH [of "p @ ''/'' @ acc"] Cons.IH [of "p @ ''/''"] show ?thesis by simp
  qed
qed

lemma resolve_acc_abs:
  "cw \<noteq> [] \<Longrightarrow> hd cw = CHR ''/'' \<Longrightarrow>
   \<exists>j. resolve_acc (xs @ [cw]) [] = (j @ ''/'', True)"
proof (induction xs)
  case Nil
  then show ?case by simp
next
  case (Cons p ps)
  then obtain j where j: "resolve_acc (ps @ [cw]) [] = (j @ ''/'', True)" by blast
  show ?case
  proof (cases "p = []")
    case True
    with j show ?thesis by simp
  next
    case False
    show ?thesis
    proof (cases "hd p = CHR ''/''")
      case True
      with False show ?thesis by simp
    next
      case h: False
      from resolve_acc_acc [of "ps @ [cw]" "p @ ''/''"] j
      have "resolve_acc (ps @ [cw]) (p @ ''/'') = ((j @ ''/'' @ p) @ ''/'', True)" by simp
      with False h show ?thesis by (intro exI [of _ "j @ ''/'' @ p"]) simp
    qed
  qed
qed

text \<open>The segments that path.resolve keeps, for an absolute working directory.\<close>

lemma path_resolve_abs:
  assumes "cw \<noteq> []" "hd cw = CHR ''/''"
  shows "\<exists>j. resolve_acc (rev (cw # args)) [] = (j @ ''/'', True) \<and>
           path_resolve cw args =
             ''/'' @ join_with ''/'' (foldl (norm_step False) [] (split_on (CHR ''/'') j))"
proof -
  from resolve_acc_abs [OF assms, of "rev args"] obtain j where
    j: "resolve_acc (rev (cw # args)) [] = (j @ ''/'', True)" by auto
  have "split_on (CHR ''/'') (j @ ''/'') = split_on (CHR ''/'') j @ [[]]"
    using split_on_cat [of "CHR ''/''" j "[]"] by simp
  then have "foldl (norm_step False) [] (split_on (CHR ''/'') (j @ ''/'')) =
             foldl (norm_step False) [] (split_on (CHR ''/'') j)"
    by (simp add: norm_skip)
  with j show ?thesis by (simp add: path_resolve_def normalizeString_def del: rev.simps)
qed

lemma nsegs_normal: "list_all normal_seg (foldl (norm_step False) [] (split_on (CHR ''/'') j))"
  by (rule foldl_norm_normal) (auto dest: split_no_sep)

lemma segments_join:
  assumes "list_all normal_seg xs"
  shows "segments (''/'' @ join_with ''/'' xs) = xs"
proof (cases "xs = []")
  case True
  then show ?thesis by (simp add: segments_def)
next
  case False
  from assms have ns: "\<forall>s \<in> set xs. CHR ''/'' \<notin> set s" "\<forall>s \<in> set xs. s \<noteq> []"
    by (auto simp: list_all_iff normal_seg_def)
  from split_join [OF False ns(1)] have "split_on (CHR ''/'') (join_with ''/'' xs) = xs" by simp
  with ns(2) show ?thesis by (simp add: segments_def filter_id_conv)
qed

lemma path_resolve_idem:
  assumes "list_all normal_seg xs"
  shows "path_resolve cw [''/'' @ join_with ''/'' xs] = ''/'' @ join_with ''/'' xs"
proof -
  have ns: "\<forall>s \<in> set xs. CHR ''/'' \<notin> set s"
    using assms by (auto simp: list_all_iff normal_seg_def)
  have sp: "split_on (CHR ''/'') (''/'' @ join_with ''/'' xs @ ''/'') =
        [] # (if xs = [] then [[], []] else xs @ [[]])"
  proof (cases "xs = []")
    case True
    then show ?thesis by simp
  next
    case False
    from split_join [OF False ns] split_on_cat [of "CHR ''/''" "join_with ''/'' xs" "[]"] False
    show ?thesis by simp
  qed
  have f: "foldl (norm_step False) [] ([] # (if xs = [] then [[], []] else xs @ [[]])) = xs"
    using norm_push [OF assms, of "[]"] by (simp add: norm_skip)
  have g: "foldl (norm_step False) [] (split_on (CHR ''/'') (''/'' @ join_with ''/'' xs @ ''/'')) = xs"
    unfolding sp by (rule f)
  have "resolve_acc (rev [cw, ''/'' @ join_with ''/'' xs]) [] =
          (''/'' @ join_with ''/'' xs @ ''/'', True)"
    by simp
  with g show ?thesis unfolding path_resolve_def normalizeString_def by simp
qed


lemma drop_common_same: "drop_common xs xs = ([], [])"
  by (induction xs) simp_all

lemma join_chars:
  "ch \<in> set (join_with sep xs) \<Longrightarrow> ch \<in> set sep \<or> (\<exists>s \<in> set xs. ch \<in> set s)"
  by (induction sep xs rule: join_with.induct) auto

lemma join_has: "s \<in> set xs \<Longrightarrow> set s \<subseteq> set (join_with sep xs)"
  by (induction sep xs rule: join_with.induct) auto

lemma toPosixPath_id: "bslash \<notin> set s \<Longrightarrow> toPosixPath s = s"
proof -
  assume n: "bslash \<notin> set s"
  have "exec_from (Atom (\<lambda>c. c = bslash)) pre s = None" for pre
    using n by (induction s arbitrary: pre) auto
  then show ?thesis by (simp add: toPosixPath_def replace_all_no_match exec_def)
qed

lemma scan_atom:
  "scan (Atom P) pre s = map (\<lambda>c. if P c then Hit [c] [] else Plain c) s"
proof (induction s arbitrary: pre)
  case Nil
  then show ?case by (subst scan.simps) simp
next
  case (Cons c s)
  then show ?case by (subst scan.simps) simp
qed

lemma toPosixPath_map:
  "toPosixPath p = map (\<lambda>c. if c = bslash then CHR ''/'' else c) p"
  unfolding toPosixPath_def replace_all_def scan_atom by (induction p) simp_all

lemma toPosixPath_no_bslash: "bslash \<notin> set (toPosixPath p)"
  unfolding toPosixPath_map by auto

lemma relative_import_shape:
  "starts_with (relative_import cw tgt dest sp) ''.'' \<and>
   bslash \<notin> set (relative_import cw tgt dest sp)"
  using toPosixPath_no_bslash [of "path_relative cw (path_dirname dest) (path_resolve cw [tgt, sp])"]
  by (auto simp: relative_import_def Let_def starts_with_def)

lemma relative_resolves:
  assumes cw: "cw \<noteq> []" "hd cw = CHR ''/''"
    and nb: "bslash \<notin> set (path_relative cw (path_dirname dest) (path_resolve cw [tgt, sp]))"
  shows "path_resolve cw [path_dirname dest, relative_import cw tgt dest sp] =
           path_resolve cw [tgt, sp] \<and>
         starts_with (relative_import cw tgt dest sp) ''.'' \<and>
         bslash \<notin> set (relative_import cw tgt dest sp)"
proof -
  let ?D = "path_dirname dest"
  let ?step = "norm_step False"
  from path_resolve_abs [OF cw, of "[tgt, sp]"] obtain jT where
    absT: "path_resolve cw [tgt, sp] = ''/'' @ join_with ''/'' (foldl ?step [] (split_on (CHR ''/'') jT))"
    by blast
  define T where "T = foldl ?step [] (split_on (CHR ''/'') jT)"
  have nT: "list_all normal_seg T" unfolding T_def by (rule nsegs_normal)
  have abs: "path_resolve cw [tgt, sp] = ''/'' @ join_with ''/'' T" using absT T_def by simp
  from path_resolve_abs [OF cw, of "[?D]"] obtain jD where
    jD: "resolve_acc (rev [cw, ?D]) [] = (jD @ ''/'', True)"
    and absD: "path_resolve cw [?D] = ''/'' @ join_with ''/'' (foldl ?step [] (split_on (CHR ''/'') jD))"
    by auto
  define F where "F = foldl ?step [] (split_on (CHR ''/'') jD)"
  have nF: "list_all normal_seg F" unfolding F_def by (rule nsegs_normal)
  have segF: "segments (path_resolve cw [?D]) = F"
    using absD F_def segments_join [OF nF] by simp
  have segT: "segments (path_resolve cw [path_resolve cw [tgt, sp]]) = T"
    using abs path_resolve_idem [OF nT, of cw] segments_join [OF nT] by simp
  obtain f t where dc: "drop_common F T = (f, t)" by (cases "drop_common F T")
  from drop_common_split [OF dc] obtain c where c: "F = c @ f" "T = c @ t" by blast
  define L where "L = replicate (length f) ''..'' @ t"
  have rel0: "path_relative cw ?D (path_resolve cw [tgt, sp]) = join_with ''/'' L"
  proof (cases "?D = path_resolve cw [tgt, sp]")
    case True
    with segF segT have "F = T" by simp
    with dc have "f = []" "t = []" by (simp_all add: drop_common_same)
    with True show ?thesis by (simp add: path_relative_def L_def)
  next
    case False
    with segF segT dc show ?thesis by (simp add: path_relative_def L_def)
  qed
  have nt: "list_all normal_seg t" "list_all normal_seg f" using nT nF c by simp_all
  have Lslash: "\<forall>s \<in> set L. CHR ''/'' \<notin> set s"
    using nt by (auto simp: L_def list_all_iff normal_seg_def)
  have Lb: "bslash \<notin> set (join_with ''/'' L)"
    using rel0 nb by simp
  define rel where "rel = join_with ''/'' L"
  have relp: "toPosixPath (path_relative cw ?D (path_resolve cw [tgt, sp])) = rel"
    using rel0 Lb by (simp add: toPosixPath_id rel_def)
  define R where "R = (if starts_with rel ''.'' then rel else ''./'' @ rel)"
  have Rdef: "relative_import cw tgt dest sp = R"
    by (simp add: relative_import_def Let_def relp R_def)
  have Rdot: "starts_with R ''.''" by (auto simp: R_def starts_with_def)
  then have Rne: "R \<noteq> []" "hd R \<noteq> CHR ''/''"
    by (cases R; auto simp: starts_with_def)+
  have Rb: "bslash \<notin> set R" using Lb by (auto simp: R_def rel_def)
  have fold_L: "foldl ?step F L = T"
  proof -
    have "foldl ?step F L = foldl ?step (foldl ?step (c @ f) (replicate (length f) ''..'')) t"
      by (simp add: L_def c)
    also have "\<dots> = foldl ?step c t" using norm_pop [OF nt(2)] by simp
    also have "\<dots> = T" using norm_push [OF nt(1)] c by simp
    finally show ?thesis .
  qed
  have fold_R: "foldl ?step F (split_on (CHR ''/'') R) = T"
  proof (cases "L = []")
    case True
    then have "R = ''./''" by (simp add: R_def rel_def starts_with_def)
    with fold_L True show ?thesis by (simp add: norm_skip)
  next
    case False
    from split_join [OF False Lslash] have sp: "split_on (CHR ''/'') rel = L" by (simp add: rel_def)
    show ?thesis
    proof (cases "starts_with rel ''.''")
      case True
      with sp fold_L show ?thesis by (simp add: R_def)
    next
      case False
      have "split_on (CHR ''/'') (''.'' @ CHR ''/'' # rel) = ''.'' # split_on (CHR ''/'') rel"
        by (rule split_on_append) simp
      with False sp fold_L show ?thesis by (simp add: R_def norm_skip)
    qed
  qed
  have acc: "resolve_acc (rev [cw, ?D, R]) [] = ((jD @ ''/'' @ R) @ ''/'', True)"
  proof -
    have "resolve_acc (rev [cw, ?D, R]) [] = resolve_acc (rev [cw, ?D]) (R @ ''/'')"
      using Rne by simp
    also have "\<dots> = (fst (resolve_acc (rev [cw, ?D]) []) @ R @ ''/'',
                      snd (resolve_acc (rev [cw, ?D]) []))"
      by (rule resolve_acc_acc)
    finally show ?thesis using jD by simp
  qed
  have "split_on (CHR ''/'') ((jD @ ''/'' @ R) @ ''/'') =
        split_on (CHR ''/'') jD @ split_on (CHR ''/'') R @ [[]]"
    using split_on_cat [of "CHR ''/''" "jD @ ''/'' @ R" "[]"] split_on_cat [of "CHR ''/''" jD R]
    by simp
  then have "foldl ?step [] (split_on (CHR ''/'') ((jD @ ''/'' @ R) @ ''/'')) = T"
    using fold_R by (simp add: F_def norm_skip)
  with acc have "path_resolve cw [?D, R] = ''/'' @ join_with ''/'' T"
    unfolding path_resolve_def normalizeString_def by (simp del: rev.simps)
  with abs Rdef Rdot Rb show ?thesis by simp
qed

lemma resolve_acc_chars:
  "ch \<in> set (fst (resolve_acc xs acc)) \<Longrightarrow>
   ch = CHR ''/'' \<or> ch \<in> set acc \<or> (\<exists>a \<in> set xs. ch \<in> set a)"
proof (induction xs arbitrary: acc)
  case Nil
  then show ?case by simp
next
  case (Cons p ps)
  show ?case
  proof (cases "p = []")
    case True
    with Cons show ?thesis by auto
  next
    case False
    show ?thesis
    proof (cases "hd p = CHR ''/''")
      case True
      with False Cons.prems show ?thesis by auto
    next
      case h: False
      with False Cons.prems have "ch \<in> set (fst (resolve_acc ps (p @ ''/'' @ acc)))" by simp
      from Cons.IH [OF this] show ?thesis by auto
    qed
  qed
qed

lemma norm_step_elems:
  "s \<in> set (norm_step rise st seg) \<Longrightarrow> s \<in> set st \<or> s = seg"
  by (auto simp: norm_step_def split: if_splits dest: in_set_butlastD)

lemma foldl_norm_elems:
  "s \<in> set (foldl (norm_step rise) st segs) \<Longrightarrow> s \<in> set st \<or> s \<in> set segs"
proof (induction segs arbitrary: st)
  case Nil
  then show ?case by simp
next
  case (Cons a segs)
  from Cons.IH [OF Cons.prems [simplified]] show ?case
    by (auto dest: norm_step_elems)
qed

lemma normalizeString_chars:
  "ch \<in> set (normalizeString p rise) \<Longrightarrow> ch = CHR ''/'' \<or> ch \<in> set p"
proof -
  assume "ch \<in> set (normalizeString p rise)"
  from join_chars [OF this [unfolded normalizeString_def]] show ?thesis
  proof
    assume "ch \<in> set ''/''"
    then show ?thesis by simp
  next
    assume "\<exists>s\<in>set (foldl (norm_step rise) [] (split_on CHR ''/'' p)). ch \<in> set s"
    then obtain s where s: "s \<in> set (foldl (norm_step rise) [] (split_on CHR ''/'' p))"
      "ch \<in> set s" by blast
    from foldl_norm_elems [OF s(1)] have "s \<in> set (split_on CHR ''/'' p)" by simp
    from split_chars [OF this s(2)] show ?thesis by simp
  qed
qed

lemma path_resolve_chars:
  assumes "ch \<in> set (path_resolve cw args)" "ch \<noteq> CHR ''/''" "ch \<noteq> CHR ''.''"
  shows "ch \<in> set cw \<or> (\<exists>a \<in> set args. ch \<in> set a)"
proof -
  obtain j ab where j: "resolve_acc (rev (cw # args)) [] = (j, ab)"
    by (cases "resolve_acc (rev (cw # args)) []")
  from assms j have "ch \<in> set (normalizeString j False) \<or> ch \<in> set (normalizeString j True)"
    by (auto simp: path_resolve_def simp del: rev.simps split: if_splits)
  with normalizeString_chars assms(2) have "ch \<in> set j" by blast
  with j have "ch \<in> set (fst (resolve_acc (rev (cw # args)) []))" by simp
  from resolve_acc_chars [OF this] assms(2) show ?thesis by auto
qed

section \<open>Rewritten imports resolve to the alias target\<close>

lemma concat_map_chars: "q \<in> set qs \<Longrightarrow> set (f q) \<subseteq> set (concat (map f qs))"
  by auto

lemma scan_piece_chars: "p \<in> set (scan r pre x) \<Longrightarrow> set (source p) \<subseteq> set x"
  using concat_map_chars [of p "scan r pre x" source] by (simp only: scan_source)

lemma path_relative_chars:
  assumes "ch \<in> set (path_relative cw a b)" "ch \<noteq> CHR ''/''" "ch \<noteq> CHR ''.''"
  shows "ch \<in> set cw \<or> ch \<in> set b"
proof -
  obtain f t where dc: "drop_common (segments (path_resolve cw [a])) (segments (path_resolve cw [b]))
      = (f, t)"
    by (cases "drop_common (segments (path_resolve cw [a])) (segments (path_resolve cw [b]))")
  from assms(1) dc have "ch \<in> set (join_with ''/'' (replicate (length f) ''..'' @ t))"
    by (auto simp: path_relative_def split: if_splits)
  from join_chars [OF this] assms(2) assms(3) obtain s where
    s: "s \<in> set (replicate (length f) ''..'' @ t)" "ch \<in> set s" by auto
  from s assms(3) have "s \<in> set t" by auto
  moreover from drop_common_split [OF dc] obtain c where
    "segments (path_resolve cw [b]) = c @ t" by blast
  ultimately have "s \<in> set (segments (path_resolve cw [b]))" by simp
  then have "s \<in> set (split_on (CHR ''/'') (path_resolve cw [b]))" by (simp add: segments_def)
  from split_chars [OF this s(2)] have "ch \<in> set (path_resolve cw [b])" .
  from path_resolve_chars [OF this assms(2) assms(3)] show ?thesis by simp
qed

lemma relative_no_bslash:
  assumes "bslash \<notin> set cw" "bslash \<notin> set root" "bslash \<notin> set tgt" "bslash \<notin> set sp"
  shows "bslash \<notin> set (path_relative cw d (path_resolve cw [path_resolve cw [root, tgt], sp]))"
proof
  assume "bslash \<in> set (path_relative cw d (path_resolve cw [path_resolve cw [root, tgt], sp]))"
  from path_relative_chars [OF this] assms(1)
  have a: "bslash \<in> set (path_resolve cw [path_resolve cw [root, tgt], sp])" by simp
  from path_resolve_chars [OF a] assms(1) assms(4)
  have b: "bslash \<in> set (path_resolve cw [root, tgt])" by auto
  from path_resolve_chars [OF b] assms(1) assms(2) assms(3) show False by auto
qed

text \<open>
  Claim C1, as amended. The working directory is absolute and the alias prefix and
  target are not empty. The scan cuts the text into characters outside every match and
  matches of the four shapes, and the result is the text with each match replaced.
  Every match is \<open>left\<close>, the normalized prefix, a subpath without quotes and \<open>right\<close>,
  where \<open>left\<close> ends with a quote and \<open>right\<close> begins with one; it is replaced by \<open>left\<close>,
  a relative path \<open>R\<close> and \<open>right\<close>, so the prefix is replaced together with the subpath
  and the captured syntax around the import source is kept as it is. \<open>R\<close> starts with a
  dot (it is the relative path, with \<open>./\<close> before it when it does not start with a dot)
  and has no backslash. When the relative path from the directory of the destination
  file to the path that the subpath resolves to has no backslash, resolving \<open>R\<close> from the
  directory of the destination file gives the path that resolving the subpath against
  the alias target, resolved under the project root, gives. That relative path has no
  backslash when the working directory, the project root, the alias target and the
  subpath have none.
\<close>

theorem alias_rewrite_resolves:
  assumes cw: "cw \<noteq> []" "hd cw = CHR ''/''"
    and ne: "ap \<noteq> []" "tgt \<noteq> []"
  shows "concat (map source (scan (alias_rx (normalized_prefix ap)) [] src)) = src \<and>
         rewriteAliasImports cw src (Some ap) (Some tgt) dest root =
           concat (map (render (alias_callback cw (path_resolve cw [root, tgt]) dest))
                    (scan (alias_rx (normalized_prefix ap)) [] src)) \<and>
         (\<forall>p \<in> set (scan (alias_rx (normalized_prefix ap)) [] src).
            case p of
              Plain c \<Rightarrow> render (alias_callback cw (path_resolve cw [root, tgt]) dest) p = [c]
            | Hit m cs \<Rightarrow>
                (\<exists>l sp r.
                   m = l @ normalized_prefix ap @ sp @ r \<and>
                   l \<noteq> [] \<and> is_quote (last l) \<and>
                   sp \<noteq> [] \<and> list_all not_quote sp \<and>
                   r \<noteq> [] \<and> is_quote (hd r) \<and>
                   render (alias_callback cw (path_resolve cw [root, tgt]) dest) p =
                     l @ relative_import cw (path_resolve cw [root, tgt]) dest sp @ r \<and>
                   starts_with (relative_import cw (path_resolve cw [root, tgt]) dest sp) ''.'' \<and>
                   bslash \<notin> set (relative_import cw (path_resolve cw [root, tgt]) dest sp) \<and>
                   (bslash \<notin> set (path_relative cw (path_dirname dest)
                                     (path_resolve cw [path_resolve cw [root, tgt], sp])) \<longrightarrow>
                    path_resolve cw
                      [path_dirname dest, relative_import cw (path_resolve cw [root, tgt]) dest sp]
                    = path_resolve cw [path_resolve cw [root, tgt], sp]) \<and>
                   (bslash \<notin> set cw \<and> bslash \<notin> set root \<and> bslash \<notin> set tgt \<and>
                    bslash \<notin> set sp \<longrightarrow>
                    bslash \<notin> set (path_relative cw (path_dirname dest)
                                     (path_resolve cw [path_resolve cw [root, tgt], sp])))))"
proof (intro conjI ballI)
  show "concat (map source (scan (alias_rx (normalized_prefix ap)) [] src)) = src"
    by (rule scan_source)
next
  show "rewriteAliasImports cw src (Some ap) (Some tgt) dest root =
           concat (map (render (alias_callback cw (path_resolve cw [root, tgt]) dest))
                    (scan (alias_rx (normalized_prefix ap)) [] src))"
    using ne by (simp add: rewriteAliasImports_def replace_all_def)
next
  fix p
  assume p: "p \<in> set (scan (alias_rx (normalized_prefix ap)) [] src)"
  let ?T = "path_resolve cw [root, tgt]"
  let ?D = "path_dirname dest"
  show "case p of
          Plain c \<Rightarrow> render (alias_callback cw ?T dest) p = [c]
        | Hit m cs \<Rightarrow>
            (\<exists>l sp r.
               m = l @ normalized_prefix ap @ sp @ r \<and>
               l \<noteq> [] \<and> is_quote (last l) \<and>
               sp \<noteq> [] \<and> list_all not_quote sp \<and>
               r \<noteq> [] \<and> is_quote (hd r) \<and>
               render (alias_callback cw ?T dest) p = l @ relative_import cw ?T dest sp @ r \<and>
               starts_with (relative_import cw ?T dest sp) ''.'' \<and>
               bslash \<notin> set (relative_import cw ?T dest sp) \<and>
               (bslash \<notin> set (path_relative cw ?D (path_resolve cw [?T, sp])) \<longrightarrow>
                path_resolve cw [?D, relative_import cw ?T dest sp] = path_resolve cw [?T, sp]) \<and>
               (bslash \<notin> set cw \<and> bslash \<notin> set root \<and> bslash \<notin> set tgt \<and>
                bslash \<notin> set sp \<longrightarrow>
                bslash \<notin> set (path_relative cw ?D (path_resolve cw [?T, sp]))))"
  proof (cases p)
    case (Plain c)
    then show ?thesis by simp
  next
    case (Hit m cs)
    from scan_Hit [OF p [unfolded Hit]] obtain pre0 y p' y' t where
      rm: "rmatch (alias_rx (normalized_prefix ap)) (pre0, y, []) = (p', y', cs) # t"
      and m: "m = take (length y - length y') y" by blast
    from rm have "(p', y', cs) \<in> set (rmatch (alias_rx (normalized_prefix ap)) (pre0, y, []))"
      by simp
    from mem_alias_rx [OF this] obtain k l sp r rest where
      k: "k \<in> {0, 3, 6, 9}" "l \<noteq> []" "sp \<noteq> []" "list_all not_quote sp"
      and y: "y = l @ normalized_prefix ap @ sp @ r @ rest"
      and st: "(p', y', cs) = (rev (l @ normalized_prefix ap @ sp @ r) @ pre0, rest,
                 [(k + 3, r), (k + 2, sp), (k + 1, l)])"
      and q: "is_quote (last l)" "r \<noteq> []" "is_quote (hd r)" by blast
    from y st m have m': "m = l @ normalized_prefix ap @ sp @ r" by simp
    from st have cs: "cs = [(k + 3, r), (k + 2, sp), (k + 1, l)]" by simp
    have res: "bslash \<notin> set (path_relative cw ?D (path_resolve cw [?T, sp])) \<longrightarrow>
                path_resolve cw [?D, relative_import cw ?T dest sp] = path_resolve cw [?T, sp]"
    proof
      assume "bslash \<notin> set (path_relative cw ?D (path_resolve cw [?T, sp]))"
      from relative_resolves [OF cw this] show
        "path_resolve cw [?D, relative_import cw ?T dest sp] = path_resolve cw [?T, sp]"
        by (rule conjunct1)
    qed
    have nob: "bslash \<notin> set cw \<and> bslash \<notin> set root \<and> bslash \<notin> set tgt \<and> bslash \<notin> set sp \<longrightarrow>
                bslash \<notin> set (path_relative cw ?D (path_resolve cw [?T, sp]))"
      using relative_no_bslash [of cw root tgt sp ?D] by blast
    note sh = relative_import_shape [of cw ?T dest sp]
    have cb: "render (alias_callback cw ?T dest) (Hit m cs) =
                l @ relative_import cw ?T dest sp @ r"
      unfolding cs render_simps by (rule alias_callback_shape [OF k(1) k(2) k(3)])
    have "\<exists>l sp r.
               m = l @ normalized_prefix ap @ sp @ r \<and>
               l \<noteq> [] \<and> is_quote (last l) \<and>
               sp \<noteq> [] \<and> list_all not_quote sp \<and>
               r \<noteq> [] \<and> is_quote (hd r) \<and>
               render (alias_callback cw ?T dest) (Hit m cs) =
                 l @ relative_import cw ?T dest sp @ r \<and>
               starts_with (relative_import cw ?T dest sp) ''.'' \<and>
               bslash \<notin> set (relative_import cw ?T dest sp) \<and>
               (bslash \<notin> set (path_relative cw ?D (path_resolve cw [?T, sp])) \<longrightarrow>
                path_resolve cw [?D, relative_import cw ?T dest sp] = path_resolve cw [?T, sp]) \<and>
               (bslash \<notin> set cw \<and> bslash \<notin> set root \<and> bslash \<notin> set tgt \<and>
                bslash \<notin> set sp \<longrightarrow>
                bslash \<notin> set (path_relative cw ?D (path_resolve cw [?T, sp])))"
      using m' k(2) k(3) k(4) q cb sh res nob
      by (intro exI [of _ l] exI [of _ sp] exI [of _ r]) (intro conjI, blast+)
    then show ?thesis unfolding Hit by (simp only: piece.case)
  qed
qed

theorem alias_rewrite_resolves_witness:
  "''/p'' \<noteq> [] \<and> hd ''/p'' = CHR ''/'' \<and> ''@/'' \<noteq> [] \<and> ''src'' \<noteq> [] \<and>
   concat (map source (scan (alias_rx (normalized_prefix ''@/'')) [] ex_source)) = ex_source \<and>
   rewriteAliasImports ''/p'' ex_source (Some ''@/'') (Some ''src'') ''/p/src/hooks/use-b.ts'' ''/p''
     = concat (map (render (alias_callback ''/p'' (path_resolve ''/p'' [''/p'', ''src''])
                             ''/p/src/hooks/use-b.ts''))
                (scan (alias_rx (normalized_prefix ''@/'')) [] ex_source)) \<and>
   rewriteAliasImports ''/p'' ex_source (Some ''@/'') (Some ''src'') ''/p/src/hooks/use-b.ts'' ''/p''
     = ''import { y } from '' @ [dq] @ ''../lib/y'' @ [dq] @ '';'' @ [nl] @
       ''export const useB = y;'' @ [nl] \<and>
   bslash \<notin> set (path_relative ''/p'' (path_dirname ''/p/src/hooks/use-b.ts'')
                    (path_resolve ''/p'' [path_resolve ''/p'' [''/p'', ''src''], ''lib/y''])) \<and>
   relative_import ''/p'' (path_resolve ''/p'' [''/p'', ''src'']) ''/p/src/hooks/use-b.ts''
     ''lib/y'' = ''../lib/y'' \<and>
   path_resolve ''/p'' [path_dirname ''/p/src/hooks/use-b.ts'', ''../lib/y'']
     = path_resolve ''/p'' [path_resolve ''/p'' [''/p'', ''src''], ''lib/y'']"
proof -
  have h: "''/p'' \<noteq> []" "hd ''/p'' = CHR ''/''" "''@/'' \<noteq> []" "''src'' \<noteq> []"
    by simp_all
  have v: "rewriteAliasImports ''/p'' ex_source (Some ''@/'') (Some ''src'')
             ''/p/src/hooks/use-b.ts'' ''/p''
     = ''import { y } from '' @ [dq] @ ''../lib/y'' @ [dq] @ '';'' @ [nl] @
       ''export const useB = y;'' @ [nl]"
    by code_simp
  have b: "bslash \<notin> set (path_relative ''/p'' (path_dirname ''/p/src/hooks/use-b.ts'')
                    (path_resolve ''/p'' [path_resolve ''/p'' [''/p'', ''src''], ''lib/y'']))"
    by code_simp
  have r: "relative_import ''/p'' (path_resolve ''/p'' [''/p'', ''src'']) ''/p/src/hooks/use-b.ts''
     ''lib/y'' = ''../lib/y''"
    by code_simp
  have e: "path_resolve ''/p'' [path_dirname ''/p/src/hooks/use-b.ts'', ''../lib/y'']
     = path_resolve ''/p'' [path_resolve ''/p'' [''/p'', ''src''], ''lib/y'']"
    by code_simp
  note th = alias_rewrite_resolves [OF h(1) h(2) h(3) h(4), of ex_source
      "''/p/src/hooks/use-b.ts''" "''/p''"]
  note t1 = th [THEN conjunct1]
  note t2 = th [THEN conjunct2, THEN conjunct1]
  from h t1 t2 v b r e show ?thesis by (intro conjI)
qed

text \<open>
  The claim as stated fails on a POSIX system for a subpath with a backslash, which is an
  ordinary character of a file name there: the relative path is \<open>../a\b\<close>, \<open>toPosixPath\<close>
  turns its backslash into a slash, and the rewritten import resolves to \<open>/p/src/a/b\<close>,
  where the subpath resolves to the one segment \<open>a\b\<close> under \<open>/p/src\<close>. And the
  replaced span is not the subpath alone: the prefix \<open>@/\<close> is not in the result.
\<close>

theorem alias_rewrite_resolves_counterexample:
  "rewriteAliasImports ''/p'' bs_source (Some ''@/'') (Some ''src'') ''/p/src/hooks/use-b.ts'' ''/p''
     = ''import x from '' @ [dq] @ ''../a/b'' @ [dq] @ '';'' \<and>
   path_relative ''/p'' (path_dirname ''/p/src/hooks/use-b.ts'')
     (path_resolve ''/p'' [path_resolve ''/p'' [''/p'', ''src''], ''a'' @ [bslash] @ ''b''])
     = ''../a'' @ [bslash] @ ''b'' \<and>
   path_resolve ''/p'' [path_dirname ''/p/src/hooks/use-b.ts'', ''../a/b''] = ''/p/src/a/b'' \<and>
   path_resolve ''/p'' [path_resolve ''/p'' [''/p'', ''src''], ''a'' @ [bslash] @ ''b'']
     = ''/p/src/a'' @ [bslash] @ ''b'' \<and>
   ''/p/src/a/b'' \<noteq> ''/p/src/a'' @ [bslash] @ ''b'' \<and>
   \<not> str_includes (''import x from '' @ [dq] @ ''../a/b'' @ [dq] @ '';'') ''@/''"
proof -
  have a: "rewriteAliasImports ''/p'' bs_source (Some ''@/'') (Some ''src'')
             ''/p/src/hooks/use-b.ts'' ''/p''
     = ''import x from '' @ [dq] @ ''../a/b'' @ [dq] @ '';''"
    by code_simp
  have r: "path_relative ''/p'' (path_dirname ''/p/src/hooks/use-b.ts'')
     (path_resolve ''/p'' [path_resolve ''/p'' [''/p'', ''src''], ''a'' @ [bslash] @ ''b''])
     = ''../a'' @ [bslash] @ ''b''"
    by code_simp
  have b: "path_resolve ''/p'' [path_dirname ''/p/src/hooks/use-b.ts'', ''../a/b''] = ''/p/src/a/b''"
    by code_simp
  have c: "path_resolve ''/p'' [path_resolve ''/p'' [''/p'', ''src''], ''a'' @ [bslash] @ ''b'']
     = ''/p/src/a'' @ [bslash] @ ''b''"
    by code_simp
  have d: "''/p/src/a/b'' \<noteq> ''/p/src/a'' @ [bslash] @ ''b''" by simp
  have e: "\<not> str_includes (''import x from '' @ [dq] @ ''../a/b'' @ [dq] @ '';'') ''@/''"
    by code_simp
  from a r b c d e show ?thesis by (intro conjI)
qed

section \<open>Moving the hooks to another directory\<close>

lemma io_bind_success:
  "io_bind m f w = (Inr y, w') \<Longrightarrow> \<exists>x w1. m w = (Inr x, w1) \<and> f x w1 = (Inr y, w')"
  by (auto simp: io_bind_apply split: prod.splits sum.splits)

lemma ensureDir_file_back:
  "ensureDir d w = (Inr u, w') \<Longrightarrow> lookup (files w') q = Some (File c) \<Longrightarrow>
   lookup (files w) q = Some (File c)"
  by (drule ensureDir_Inr) (auto split: if_splits simp del: up_chain.simps)

lemma copyFile_Inr:
  assumes "copyFile s t w = (Inr u, w')"
  shows "\<exists>c. lookup (files w) s = Some (File c) \<and> saved_config w' = saved_config w \<and>
           (\<forall>q. lookup (files w') q = (if q = t then Some (File c) else lookup (files w) q))"
proof -
  from assms obtain c where c: "lookup (files w) s = Some (File c)"
    and wr: "writeFile t c w = (Inr u, w')"
    by (auto simp: copyFile_def readFile_def io_bind_apply
             split: option.splits node.splits prod.splits sum.splits)
  from writeFile_Inr [OF wr] have "saved_config w' = saved_config w" by simp
  with c writeFile_lookup [OF wr] show ?thesis by blast
qed

lemma copy_flat_frame:
  "copy_flat e n fs w = (Inr u, w') \<Longrightarrow>
   saved_config w' = saved_config w \<and>
   (\<forall>q. q \<notin> (\<lambda>f. cwd_path e [n, path_basename f]) ` set fs \<longrightarrow>
        lookup (files w') q = lookup (files w) q)"
proof (induction fs arbitrary: w)
  case Nil
  then show ?case by (simp add: io_return_apply)
next
  case (Cons f fs)
  from Cons.prems obtain w2 where
    c: "copyFile f (cwd_path e [n, path_basename f]) w = (Inr (), w2)"
    and r: "copy_flat e n fs w2 = (Inr u, w')"
    by (auto simp: io_bind_apply split: prod.splits sum.splits)
  from copyFile_Inr [OF c] Cons.IH [OF r] show ?case by auto
qed

lemma copy_flat_copies:
  "copy_flat e n fs w = (Inr u, w') \<Longrightarrow>
   distinct (map (\<lambda>f. cwd_path e [n, path_basename f]) fs) \<Longrightarrow>
   \<forall>f \<in> set fs. cwd_path e [n, path_basename f] \<notin> set fs \<Longrightarrow>
   \<forall>f \<in> set fs. \<exists>c. lookup (files w) f = Some (File c) \<and>
      lookup (files w') (cwd_path e [n, path_basename f]) = Some (File c)"
proof (induction fs arbitrary: w)
  case Nil
  then show ?case by simp
next
  case (Cons f fs)
  let ?t = "\<lambda>f. cwd_path e [n, path_basename f]"
  from Cons.prems(1) obtain w2 where
    c: "copyFile f (?t f) w = (Inr (), w2)"
    and r: "copy_flat e n fs w2 = (Inr u, w')"
    by (auto simp: io_bind_apply split: prod.splits sum.splits)
  from copyFile_Inr [OF c] obtain x where x: "lookup (files w) f = Some (File x)"
    and l2: "\<And>q. lookup (files w2) q = (if q = ?t f then Some (File x) else lookup (files w) q)"
    by blast
  from Cons.prems(2) have d: "distinct (map ?t fs)" and nf: "?t f \<notin> ?t ` set fs" by auto
  from Cons.prems(3) have ap: "\<forall>g \<in> set fs. ?t g \<notin> set fs" and tf: "?t f \<notin> set fs"
    and tff: "?t f \<noteq> f"
    by auto
  from Cons.IH [OF r d ap]
  have ih: "\<forall>g \<in> set fs. \<exists>c. lookup (files w2) g = Some (File c) \<and>
      lookup (files w') (?t g) = Some (File c)" .
  from copy_flat_frame [OF r] nf have "lookup (files w') (?t f) = lookup (files w2) (?t f)"
    by blast
  with l2 x have head: "\<exists>c. lookup (files w) f = Some (File c) \<and>
      lookup (files w') (?t f) = Some (File c)"
    by simp
  have tail: "\<exists>c. lookup (files w) g = Some (File c) \<and>
      lookup (files w') (?t g) = Some (File c)" if g: "g \<in> set fs" for g
  proof -
    from g tf have "g \<noteq> ?t f" by blast
    with l2 have eq: "lookup (files w2) g = lookup (files w) g" by simp
    from ih g obtain c where "lookup (files w2) g = Some (File c)"
      and "lookup (files w') (?t g) = Some (File c)"
      by blast
    with eq show ?thesis by metis
  qed
  from head tail show ?case by simp
qed

lemma writeConfig_Inr:
  assumes "writeConfig e c w = (Inr u, w')"
  shows "saved_config w' = Some c \<and>
   lookup (files w') (cwd_path e [CONFIG_FILE]) = Some (File (config_json c @ [nl])) \<and>
   (\<forall>q x. q \<noteq> cwd_path e [CONFIG_FILE] \<and> lookup (files w) q = Some (File x) \<longrightarrow>
          lookup (files w') q = Some (File x))"
proof -
  let ?p = "cwd_path e [CONFIG_FILE]"
  from io_bind_success [OF assms [unfolded writeConfig_def]] obtain x w1 where
    a: "writeFile ?p (config_json c @ [nl]) w = (Inr x, w1)"
    and r: "io_bind (\<lambda>w. (Inr (), w\<lparr>saved_config := Some c\<rparr>))
              (\<lambda>u2. ensureDir (cwd_path e [baseDir c])) w1 = (Inr u, w')"
    by blast
  from io_bind_success [OF r] obtain w2 where
    w2: "w2 = w1\<lparr>saved_config := Some c\<rparr>"
    and b: "ensureDir (cwd_path e [baseDir c]) w2 = (Inr u, w')"
    by auto
  note l1 = writeFile_lookup [OF a]
  from ensureDir_Inr [OF b] w2 have "saved_config w' = Some c" by simp
  moreover have "lookup (files w2) ?p = Some (File (config_json c @ [nl]))"
    using l1 w2 by simp
  from ensureDir_keeps_file [OF b this]
  have "lookup (files w') ?p = Some (File (config_json c @ [nl]))" .
  moreover have "lookup (files w') q = Some (File x)"
    if "q \<noteq> ?p \<and> lookup (files w) q = Some (File x)" for q x
  proof -
    from that l1 w2 have "lookup (files w2) q = Some (File x)" by simp
    from ensureDir_keeps_file [OF b this] show ?thesis .
  qed
  ultimately show ?thesis by blast
qed

lemma resolve_acc_slash:
  "fst (resolve_acc xs []) = [] \<or> last (fst (resolve_acc xs [])) = CHR ''/''"
proof (induction xs)
  case Nil
  then show ?case by simp
next
  case (Cons p ps)
  show ?case
  proof (cases "p = []")
    case True
    with Cons show ?thesis by simp
  next
    case False
    show ?thesis
    proof (cases "hd p = CHR ''/''")
      case True
      with False show ?thesis by simp
    next
      case h: False
      have "resolve_acc (p # ps) [] = resolve_acc ps (p @ ''/'')" using False h by simp
      with resolve_acc_acc [of ps "p @ ''/''"] show ?thesis by simp
    qed
  qed
qed

lemma split_tail:
  assumes "J = [] \<or> last J = CHR ''/''" and "CHR ''/'' \<notin> set b"
  shows "\<exists>S. split_on (CHR ''/'') (J @ b @ ''/'') = S @ [b, []]"
proof (cases "J = []")
  case True
  with split_on_append [OF assms(2), of "[]"] show ?thesis by simp
next
  case False
  with assms(1) obtain K where K: "J = K @ ''/''"
    by (metis append_butlast_last_id)
  have "split_on (CHR ''/'') (K @ CHR ''/'' # (b @ ''/'')) =
        split_on (CHR ''/'') K @ split_on (CHR ''/'') (b @ ''/'')"
    by (rule split_on_cat)
  with split_on_append [OF assms(2), of "[]"] K show ?thesis by simp
qed

lemma join_snoc:
  "join_with sep (xs @ [b]) = (if xs = [] then b else join_with sep xs @ sep @ b)"
  by (induction sep xs rule: join_with.induct) auto

lemma normalize_tail:
  assumes "J = [] \<or> last J = CHR ''/''" and b: "normal_seg b"
  shows "\<exists>d. normalizeString (J @ b @ ''/'') rise = d @ b"
proof -
  from b have "CHR ''/'' \<notin> set b" by (simp add: normal_seg_def)
  from split_tail [OF assms(1) this] obtain S where
    S: "split_on (CHR ''/'') (J @ b @ ''/'') = S @ [b, []]" by blast
  have "foldl (norm_step rise) [] (S @ [b, []]) = foldl (norm_step rise) [] S @ [b]"
    using b by (simp add: norm_step_def normal_seg_def)
  with S show ?thesis by (simp add: normalizeString_def join_snoc)
qed

lemma path_resolve_tail:
  assumes b: "normal_seg b"
  shows "\<exists>d. path_resolve cw (ps @ [b]) = d @ b"
proof -
  from b have bne: "b \<noteq> []" by (simp add: normal_seg_def)
  from b have "CHR ''/'' \<notin> set b" by (simp add: normal_seg_def)
  with bne have bs: "hd b \<noteq> CHR ''/''" by (cases b) auto
  let ?xs = "rev ps @ [cw]"
  let ?J = "fst (resolve_acc ?xs [])"
  have "resolve_acc (rev (cw # ps @ [b])) [] = resolve_acc ?xs (b @ ''/'')"
    using bne bs by simp
  also have "\<dots> = (?J @ b @ ''/'', snd (resolve_acc ?xs []))"
    by (rule resolve_acc_acc)
  finally have r: "resolve_acc (rev (cw # ps @ [b])) [] = (?J @ b @ ''/'', snd (resolve_acc ?xs []))" .
  from normalize_tail [OF resolve_acc_slash b] obtain d1 where
    d1: "normalizeString (?J @ b @ ''/'') False = d1 @ b" by blast
  from normalize_tail [OF resolve_acc_slash b] obtain d2 where
    d2: "normalizeString (?J @ b @ ''/'') True = d2 @ b" by blast
  show ?thesis
  proof (cases "snd (resolve_acc ?xs [])")
    case True
    with r d1 have "path_resolve cw (ps @ [b]) = (''/'' @ d1) @ b"
      unfolding path_resolve_def by (simp del: rev.simps rev_append)
    then show ?thesis by blast
  next
    case False
    with r d2 bne have "path_resolve cw (ps @ [b]) = d2 @ b"
      unfolding path_resolve_def by (simp del: rev.simps rev_append)
    then show ?thesis by blast
  qed
qed

lemma recognized_ext:
  "e = ''.ts'' \<or> e = ''.js'' \<Longrightarrow> \<exists>x. e = [CHR ''.'', x, CHR ''s''] \<and> x \<noteq> CHR ''/''"
  by auto

lemma basename_ext:
  assumes "x \<noteq> CHR ''/''"
  shows "path_basename (g @ [CHR ''.'', x, CHR ''s'']) =
           rev (takeWhile (\<lambda>c. c \<noteq> CHR ''/'') (rev g)) @ [CHR ''.'', x, CHR ''s'']"
  using assms by (simp add: path_basename_def)

lemma recognized_name:
  assumes "recognized f"
  shows "f \<noteq> [] \<and> last f = CHR ''s'' \<and> normal_seg (path_basename f) \<and>
         last (path_basename f) = CHR ''s''"
proof -
  from assms obtain e where e: "e = ''.ts'' \<or> e = ''.js''"
    and d: "drop (length f - length e) f = e"
    unfolding recognized_def ends_with_def by blast
  from recognized_ext [OF e] obtain x where x: "e = [CHR ''.'', x, CHR ''s'']" "x \<noteq> CHR ''/''"
    by blast
  define g where "g = take (length f - length e) f"
  have "f = g @ drop (length f - length e) f" unfolding g_def by simp
  with d x have f: "f = g @ [CHR ''.'', x, CHR ''s'']" by simp
  let ?h = "rev (takeWhile (\<lambda>c. c \<noteq> CHR ''/'') (rev g))"
  have bn: "path_basename f = ?h @ [CHR ''.'', x, CHR ''s'']"
    unfolding f by (rule basename_ext [OF x(2)])
  have h: "CHR ''/'' \<notin> set ?h"
    using set_takeWhileD [of "CHR ''/''" "\<lambda>c. c \<noteq> CHR ''/''" "rev g"] by auto
  have "normal_seg (?h @ [CHR ''.'', x, CHR ''s''])"
    using h x(2) by (simp add: normal_seg_def)
  with bn have n: "normal_seg (path_basename f)" by simp
  have l1: "last f = CHR ''s''" unfolding f by simp
  have l2: "last (path_basename f) = CHR ''s''" unfolding bn by simp
  have ne: "f \<noteq> []" unfolding f by simp
  from ne l1 n l2 show ?thesis by blast
qed

lemma config_path_last:
  "cwd_path e [CONFIG_FILE] \<noteq> [] \<and> last (cwd_path e [CONFIG_FILE]) = CHR ''n''"
proof -
  have "normal_seg CONFIG_FILE" by (simp add: CONFIG_FILE_def normal_seg_def)
  from path_resolve_tail [OF this, of "wd e" "[]"] obtain d where
    "cwd_path e [CONFIG_FILE] = d @ CONFIG_FILE" by (auto simp: cwd_path_def)
  then show ?thesis by (simp add: CONFIG_FILE_def)
qed

lemma recognized_not_config:
  assumes "recognized f"
  shows "f \<noteq> cwd_path e [CONFIG_FILE] \<and>
         cwd_path e [n, path_basename f] \<noteq> cwd_path e [CONFIG_FILE]"
proof -
  note r = recognized_name [OF assms]
  from r have "normal_seg (path_basename f)" by blast
  from path_resolve_tail [OF this, of "wd e" "[n]"] obtain d where
    d: "cwd_path e [n, path_basename f] = d @ path_basename f" by (auto simp: cwd_path_def)
  from r have "path_basename f \<noteq> []" by (auto simp: normal_seg_def)
  with d r have "last (cwd_path e [n, path_basename f]) = CHR ''s''" by simp
  with r config_path_last [of e] show ?thesis by auto
qed

lemma migrate_same_root:
  "path_resolve (wd e) [baseDir (case readConfig w of None \<Rightarrow> DEFAULT_CFG | Some c \<Rightarrow> c)]
     = path_resolve (wd e) [n] \<Longrightarrow>
   snd (cmdMigrate e n w) = w"
  by (simp add: cmdMigrate_def Let_def)

lemma migrate_steps:
  assumes run: "cmdMigrate e n w = (Inr (), w')"
    and cfg: "cfg = (case readConfig w of None \<Rightarrow> DEFAULT_CFG | Some c \<Rightarrow> c)"
    and diff: "path_resolve (wd e) [baseDir cfg] \<noteq> path_resolve (wd e) [n]"
  shows "\<exists>w1 w2. ensureDir (cwd_path e [n]) w = (Inr (), w1) \<and>
           copy_flat e n (filter recognized
              (if lookup (files w1) (cwd_path e [baseDir cfg]) \<noteq> None
               then walk (files w1) (cwd_path e [baseDir cfg]) else [])) w1 = (Inr (), w2) \<and>
           writeConfig e (cfg\<lparr>baseDir := n\<rparr>) w2 = (Inr (), w')"
proof -
  let ?old = "cwd_path e [baseDir cfg]"
  from run have nb: "\<not> (n = [] \<or> list_all is_space n)"
    by (auto simp: cmdMigrate_def)
  have "cmdMigrate e n w =
      io_bind (ensureDir (cwd_path e [n])) (\<lambda>u1.
      io_bind (existsSync ?old) (\<lambda>ex.
      io_bind (if ex then walk_dir ?old else io_return []) (\<lambda>listed.
      io_bind (copy_flat e n (filter recognized listed)) (\<lambda>u2.
      writeConfig e (cfg\<lparr>baseDir := n\<rparr>))))) w"
    using nb diff unfolding cfg cmdMigrate_def Let_def by (simp only: if_False)
  with run have r: "io_bind (ensureDir (cwd_path e [n])) (\<lambda>u1.
      io_bind (existsSync ?old) (\<lambda>ex.
      io_bind (if ex then walk_dir ?old else io_return []) (\<lambda>listed.
      io_bind (copy_flat e n (filter recognized listed)) (\<lambda>u2.
      writeConfig e (cfg\<lparr>baseDir := n\<rparr>))))) w = (Inr (), w')"
    by simp
  from io_bind_success [OF r] obtain w1 where
    s1: "ensureDir (cwd_path e [n]) w = (Inr (), w1)"
    and r1: "io_bind (existsSync ?old) (\<lambda>ex.
      io_bind (if ex then walk_dir ?old else io_return []) (\<lambda>listed.
      io_bind (copy_flat e n (filter recognized listed)) (\<lambda>u2.
      writeConfig e (cfg\<lparr>baseDir := n\<rparr>)))) w1 = (Inr (), w')"
    by auto
  from io_bind_success [OF r1] obtain ex wa where
    s2: "existsSync ?old w1 = (Inr ex, wa)"
    and r2: "io_bind (if ex then walk_dir ?old else io_return []) (\<lambda>listed.
      io_bind (copy_flat e n (filter recognized listed)) (\<lambda>u2.
      writeConfig e (cfg\<lparr>baseDir := n\<rparr>))) wa = (Inr (), w')"
    by blast
  from s2 have ex: "ex = (lookup (files w1) ?old \<noteq> None)" and wa: "wa = w1"
    by (auto simp: existsSync_def)
  from io_bind_success [OF r2] obtain listed wb where
    s3: "(if ex then walk_dir ?old else io_return []) wa = (Inr listed, wb)"
    and r3: "io_bind (copy_flat e n (filter recognized listed)) (\<lambda>u2.
      writeConfig e (cfg\<lparr>baseDir := n\<rparr>)) wb = (Inr (), w')"
    by blast
  from s3 ex wa have wb: "wb = w1"
    and listed: "listed = (if lookup (files w1) ?old \<noteq> None then walk (files w1) ?old else [])"
    by (auto simp: walk_dir_def split: if_splits option.splits node.splits)
  from io_bind_success [OF r3] obtain w2 where
    s4: "copy_flat e n (filter recognized listed) wb = (Inr (), w2)"
    and s5: "writeConfig e (cfg\<lparr>baseDir := n\<rparr>) w2 = (Inr (), w')"
    by auto
  from s1 s4 s5 wb listed show ?thesis by blast
qed

lemma migrate_blank:
  "n = [] \<or> list_all is_space n \<Longrightarrow> cmdMigrate e n w = (Inl UsageError, w)"
  by (simp add: cmdMigrate_def)

text \<open>
  Claim C7, as amended. With \<open>cfg\<close> the configuration that \<open>cmdMigrate\<close> reads: when the
  new root resolves to the path that the configured root resolves to, the state after
  \<open>cmdMigrate\<close> is the state before it. When the two differ and \<open>cmdMigrate\<close> ends normally,
  let \<open>listed\<close> be the files with a recognized extension that the walk of the old root
  finds, once the new root is made. If the paths they are copied to, of the base name of
  each under the new root, are distinct, and none of these paths is itself in \<open>listed\<close>,
  then the saved configuration is \<open>cfg\<close> with the new root as its \<open>baseDir\<close>; every file of
  \<open>listed\<close> is a file with the same text as before, and the file of its base name under
  the new root has that text; and every file of the state before that no copy is written
  to is a file with the same text afterwards.
\<close>





end
